theory Spec2Isabelle
  imports Main
begin

section \<open>Source text and JavaScript string primitives\<close>

text \<open>
  A document is a sequence of code units, modelled as \<^typ>\<open>string\<close>: the documents covered
  are those whose code units are below 256. All delimiters the scanners look for are ASCII. Reading \<open>text[i]\<close> beyond the end gives \<open>undefined\<close> in
  JavaScript, which compares unequal to every character: \<open>charAt\<close> returns \<open>None\<close> there.
  The empty string \<open>''\<close> used for "no previous character" and "no string delimiter" is
  \<open>None\<close> as well.
\<close>

abbreviation backtick :: char where "backtick \<equiv> CHR 0x60"
abbreviation backslash :: char where "backslash \<equiv> CHR 0x5C"
abbreviation dquote :: char where "dquote \<equiv> CHR 0x22"
abbreviation squote :: char where "squote \<equiv> CHR 0x27"
abbreviation newline :: char where "newline \<equiv> CHR 0x0A"

definition charAt :: "string \<Rightarrow> nat \<Rightarrow> char option" where
  "charAt text i = (if i < length text then Some (text ! i) else None)"

definition substring :: "string \<Rightarrow> nat \<Rightarrow> nat \<Rightarrow> string" where
  \<comment> \<open>\<open>text.substring(a, b)\<close> for \<open>a \<le> b\<close>; both ends are clamped to the length.\<close>
  "substring text a b = take (b - a) (drop a text)"

definition substringFrom :: "string \<Rightarrow> nat \<Rightarrow> string" where
  \<comment> \<open>\<open>text.substring(a)\<close>\<close>
  "substringFrom text a = drop a text"

datatype ('s, 'r) iteration = Next 's | Done 'r

section \<open>foldingProvider.ts: findClosingBacktick\<close>

record fcb_state =
  fcb_depth :: int
  fcb_i :: nat
  fcb_inString :: bool
  fcb_stringChar :: "char option"

text \<open>One iteration of the \<open>while\<close> loop of \<open>findClosingBacktick\<close>.\<close>

definition fcb_body :: "string \<Rightarrow> fcb_state \<Rightarrow> (fcb_state, int) iteration" where
  "fcb_body text s =
    (let i = fcb_i s;
         char = charAt text i;
         prevChar = (if i > 0 then charAt text (i - 1) else None)
     in if prevChar = Some backslash then Next (s\<lparr>fcb_i := i + 1\<rparr>)
        else
          let s1 = (if \<not> fcb_inString s \<and> (char = Some dquote \<or> char = Some squote)
                    then s\<lparr>fcb_inString := True, fcb_stringChar := char\<rparr>
                    else if fcb_inString s \<and> char = fcb_stringChar s
                    then s\<lparr>fcb_inString := False, fcb_stringChar := None\<rparr>
                    else s)
          in if \<not> fcb_inString s1 then
               if char = Some backtick then
                 (if fcb_depth s1 - 1 = 0 then Done (int i)
                  else Next (s1\<lparr>fcb_depth := fcb_depth s1 - 1, fcb_i := i + 1\<rparr>))
               else if char = Some (CHR ''$'') \<and> i + 1 < length text
                       \<and> charAt text (i + 1) = Some (CHR ''{'') then
                 Next (s1\<lparr>fcb_depth := fcb_depth s1 + 1, fcb_i := i + 2\<rparr>)
               else if char = Some (CHR ''}'') \<and> fcb_depth s1 > 1 then
                 Next (s1\<lparr>fcb_depth := fcb_depth s1 - 1, fcb_i := i + 1\<rparr>)
               else Next (s1\<lparr>fcb_i := i + 1\<rparr>)
             else Next (s1\<lparr>fcb_i := i + 1\<rparr>))"

lemma fcb_body_advances:
  "fcb_body text s = Next s' \<Longrightarrow> fcb_i s < fcb_i s'"
  by (auto simp: fcb_body_def Let_def split: if_splits)

function fcb_loop :: "string \<Rightarrow> fcb_state \<Rightarrow> int" where
  "fcb_loop text s =
    (if fcb_i s < length text \<and> fcb_depth s > 0 then
       (case fcb_body text s of Done r \<Rightarrow> r | Next s' \<Rightarrow> fcb_loop text s')
     else - 1)"
  by pat_completeness auto
termination
  by (relation "measure (\<lambda>(text, s). length text - fcb_i s)")
     (auto dest: fcb_body_advances)

declare fcb_loop.simps [simp del]

definition fcb_init :: "nat \<Rightarrow> fcb_state" where
  "fcb_init startPos =
     \<lparr>fcb_depth = 1, fcb_i = startPos, fcb_inString = False, fcb_stringChar = None\<rparr>"

definition findClosingBacktick :: "string \<Rightarrow> nat \<Rightarrow> int" where
  "findClosingBacktick text startPos = fcb_loop text (fcb_init startPos)"

text \<open>
  The states at which the loop condition is evaluated, in order, and the indices of
  \<open>text\<close> that one iteration reads: \<open>text[i]\<close> always, \<open>text[i - 1]\<close> when \<open>i > 0\<close>, and
  \<open>text[i + 1]\<close> when the test for \<open>${\<close> gets past \<open>i + 1 < text.length\<close>.
\<close>

function fcb_states :: "string \<Rightarrow> fcb_state \<Rightarrow> fcb_state list" where
  "fcb_states text s =
    s # (if fcb_i s < length text \<and> fcb_depth s > 0 then
           (case fcb_body text s of Done r \<Rightarrow> [] | Next s' \<Rightarrow> fcb_states text s')
         else [])"
  by pat_completeness auto
termination
  by (relation "measure (\<lambda>(text, s). length text - fcb_i s)")
     (auto dest: fcb_body_advances)

declare fcb_states.simps [simp del]

definition fcb_reads :: "string \<Rightarrow> fcb_state \<Rightarrow> nat list" where
  "fcb_reads text s =
    (let i = fcb_i s;
         char = charAt text i;
         prevChar = (if i > 0 then charAt text (i - 1) else None);
         inString1 = (if \<not> fcb_inString s \<and> (char = Some dquote \<or> char = Some squote) then True
                      else if fcb_inString s \<and> char = fcb_stringChar s then False
                      else fcb_inString s)
     in [i] @ (if i > 0 then [i - 1] else [])
        @ (if prevChar \<noteq> Some backslash \<and> \<not> inString1 \<and> char \<noteq> Some backtick
              \<and> char = Some (CHR ''$'') \<and> i + 1 < length text
           then [i + 1] else []))"

definition fcb_all_reads :: "string \<Rightarrow> nat \<Rightarrow> nat list" where
  "fcb_all_reads text startPos =
     concat (map (fcb_reads text)
       (filter (\<lambda>s. fcb_i s < length text \<and> fcb_depth s > 0)
          (fcb_states text (fcb_init startPos))))"


section \<open>The diagnostic provider: extractTemplateContent\<close>

record etc_state =
  etc_depth :: int
  etc_i :: nat
  etc_inString :: bool
  etc_inNestedTemplate :: bool
  etc_stringChar :: "char option"

text \<open>
  One iteration of the loop of \<open>extractTemplateContent\<close>. Every branch of the source that
  ends in \<open>continue\<close> is one branch of the chain; the last branch is the fall-through
  (brace tracking, the test for the closing backtick, \<open>i++\<close>).
\<close>

definition etc_body :: "string \<Rightarrow> nat \<Rightarrow> etc_state \<Rightarrow> (etc_state, string) iteration" where
  "etc_body text startPos s =
    (let i = etc_i s;
         char = charAt text i;
         nextChar = charAt text (i + 1);
         prevChar = (if i > 0 then charAt text (i - 1) else None);
         depth = etc_depth s;
         inString = etc_inString s;
         inNested = etc_inNestedTemplate s
     in if prevChar = Some backslash \<and> (inString \<or> inNested) then Next (s\<lparr>etc_i := i + 1\<rparr>)
        else if depth > 0 \<and> \<not> inNested \<and> \<not> inString
                \<and> (char = Some dquote \<or> char = Some squote) then
          Next (s\<lparr>etc_inString := True, etc_stringChar := char, etc_i := i + 1\<rparr>)
        else if depth > 0 \<and> \<not> inNested \<and> inString \<and> char = etc_stringChar s then
          Next (s\<lparr>etc_inString := False, etc_i := i + 1\<rparr>)
        else if depth > 0 \<and> \<not> inString \<and> char = Some backtick then
          Next (s\<lparr>etc_inNestedTemplate := \<not> inNested, etc_i := i + 1\<rparr>)
        else if \<not> inString \<and> \<not> inNested \<and> char = Some (CHR ''$'')
                \<and> nextChar = Some (CHR ''{'') then
          Next (s\<lparr>etc_depth := depth + 1, etc_i := i + 2\<rparr>)
        else
          let depth1 = (if \<not> inString \<and> \<not> inNested then
                          (if char = Some (CHR ''{'') then depth + 1
                           else if char = Some (CHR ''}'') then
                             (if depth > 0 then depth - 1 else depth)
                           else depth)
                        else depth)
          in if char = Some backtick \<and> depth1 = 0 \<and> \<not> inNested
             then Done (substring text startPos i)
             else Next (s\<lparr>etc_depth := depth1, etc_i := i + 1\<rparr>))"

lemma etc_body_advances_case:
  "(case etc_body t p s of Next s' \<Rightarrow> etc_i s < etc_i s' | Done r \<Rightarrow> True)"
  by (simp add: etc_body_def Let_def)

lemma etc_body_advances:
  "etc_body t p s = Next s' \<Longrightarrow> etc_i s < etc_i s'"
  using etc_body_advances_case[where t = t and p = p and s = s] by simp

function etc_loop :: "string \<Rightarrow> nat \<Rightarrow> etc_state \<Rightarrow> string option" where
  "etc_loop text startPos s =
    (if etc_i s < length text then
       (case etc_body text startPos s of
          Done r \<Rightarrow> Some r
        | Next s' \<Rightarrow> etc_loop text startPos s')
     else None)"
  by pat_completeness auto
termination
  by (relation "measure (\<lambda>(text, startPos, s). length text - etc_i s)")
     (auto dest: etc_body_advances)

declare etc_loop.simps [simp del]

definition etc_init :: "nat \<Rightarrow> etc_state" where
  "etc_init startPos =
     \<lparr>etc_depth = 0, etc_i = startPos, etc_inString = False,
      etc_inNestedTemplate = False, etc_stringChar = None\<rparr>"

definition extractTemplateContent :: "string \<Rightarrow> nat \<Rightarrow> string option" where
  \<comment> \<open>\<open>None\<close> is the source's \<open>null\<close> (unclosed template).\<close>
  "extractTemplateContent text startPos = etc_loop text startPos (etc_init startPos)"

function etc_states :: "string \<Rightarrow> nat \<Rightarrow> etc_state \<Rightarrow> etc_state list" where
  "etc_states text startPos s =
    s # (if etc_i s < length text then
           (case etc_body text startPos s of
              Done r \<Rightarrow> []
            | Next s' \<Rightarrow> etc_states text startPos s')
         else [])"
  by pat_completeness auto
termination
  by (relation "measure (\<lambda>(text, startPos, s). length text - etc_i s)")
     (auto dest: etc_body_advances)

declare etc_states.simps [simp del]

section \<open>utils.ts: isInsideComment\<close>

record iic_state =
  iic_inComment :: bool
  iic_inString :: bool
  iic_inTemplateString :: bool
  iic_templateDepth :: int
  iic_stringChar :: "char option"
  iic_i :: nat

definition iic_body :: "string \<Rightarrow> iic_state \<Rightarrow> iic_state" where
  "iic_body beforeText s =
    (let i = iic_i s;
         char = charAt beforeText i;
         nextChar = charAt beforeText (i + 1);
         inComment = iic_inComment s;
         inString = iic_inString s;
         inTemplateString = iic_inTemplateString s
     in if char = Some backslash \<and> (inString \<or> inTemplateString) then s\<lparr>iic_i := i + 2\<rparr>
        else if \<not> inComment \<and> \<not> inTemplateString \<and> \<not> inString
                \<and> (char = Some dquote \<or> char = Some squote) then
          s\<lparr>iic_inString := True, iic_stringChar := char, iic_i := i + 1\<rparr>
        else if \<not> inComment \<and> \<not> inTemplateString \<and> inString
                \<and> char = iic_stringChar s then
          s\<lparr>iic_inString := False, iic_i := i + 1\<rparr>
        else if \<not> inComment \<and> \<not> inString \<and> char = Some backtick then
          (if \<not> inTemplateString
           then s\<lparr>iic_inTemplateString := True, iic_i := i + 1\<rparr>
           else s\<lparr>iic_inTemplateString := False, iic_templateDepth := 0, iic_i := i + 1\<rparr>)
        else if \<not> inComment \<and> \<not> inString \<and> inTemplateString
                \<and> char = Some (CHR ''$'') \<and> nextChar = Some (CHR ''{'') then
          s\<lparr>iic_templateDepth := iic_templateDepth s + 1, iic_i := i + 2\<rparr>
        else if \<not> inComment \<and> \<not> inString \<and> inTemplateString
                \<and> char = Some (CHR ''}'') \<and> iic_templateDepth s > 0 then
          s\<lparr>iic_templateDepth := iic_templateDepth s - 1, iic_i := i + 1\<rparr>
        else if \<not> inString \<and> char = Some (CHR ''/'') \<and> nextChar = Some (CHR ''*'') then
          s\<lparr>iic_inComment := True, iic_i := i + 2\<rparr>
        else if \<not> inString \<and> char = Some (CHR ''*'') \<and> nextChar = Some (CHR ''/'') then
          s\<lparr>iic_inComment := False, iic_i := i + 2\<rparr>
        else s\<lparr>iic_i := i + 1\<rparr>)"

lemma iic_body_advances: "iic_i s < iic_i (iic_body beforeText s)"
  by (auto simp: iic_body_def Let_def)

function iic_loop :: "string \<Rightarrow> iic_state \<Rightarrow> iic_state" where
  "iic_loop beforeText s =
    (if iic_i s < length beforeText then iic_loop beforeText (iic_body beforeText s) else s)"
  by pat_completeness auto
termination
  by (relation "measure (\<lambda>(beforeText, s). length beforeText - iic_i s)")
     (use iic_body_advances in \<open>auto intro: diff_less_mono2\<close>)

declare iic_loop.simps [simp del]

definition iic_init :: iic_state where
  "iic_init =
     \<lparr>iic_inComment = False, iic_inString = False, iic_inTemplateString = False,
      iic_templateDepth = 0, iic_stringChar = None, iic_i = 0\<rparr>"

definition isInsideComment :: "string \<Rightarrow> nat \<Rightarrow> bool" where
  "isInsideComment text position =
     iic_inComment (iic_loop (substring text 0 position) iic_init)"

function iic_states :: "string \<Rightarrow> iic_state \<Rightarrow> iic_state list" where
  "iic_states beforeText s =
    s # (if iic_i s < length beforeText
         then iic_states beforeText (iic_body beforeText s) else [])"
  by pat_completeness auto
termination
  by (relation "measure (\<lambda>(beforeText, s). length beforeText - iic_i s)")
     (use iic_body_advances in \<open>auto intro: diff_less_mono2\<close>)

declare iic_states.simps [simp del]


section \<open>The diagnostic provider: replaceInterpolationsWithPlaceholders\<close>

record rip_state =
  rip_depth :: int
  rip_i :: nat
  rip_inString :: bool
  rip_inTemplate :: bool
  rip_stringChar :: "char option"

text \<open>
  One iteration of the inner loop, which looks for the brace that closes an interpolation.
  \<open>Done\<close> is the \<open>break\<close> at the closing brace. The variable \<open>interpolationContent\<close> of
  the source is written but never read, and is left out.
\<close>

definition rip_body :: "string \<Rightarrow> rip_state \<Rightarrow> (rip_state, rip_state) iteration" where
  "rip_body result s =
    (let i = rip_i s;
         char = charAt result i
     in if char = Some backslash \<and> (rip_inString s \<or> rip_inTemplate s) then
          Next (s\<lparr>rip_i := (if i + 1 < length result then i + 2 else i + 1)\<rparr>)
        else
          let s1 = (if \<not> rip_inTemplate s then
                      (if \<not> rip_inString s \<and> (char = Some dquote \<or> char = Some squote)
                       then s\<lparr>rip_inString := True, rip_stringChar := char\<rparr>
                       else if rip_inString s \<and> char = rip_stringChar s
                       then s\<lparr>rip_inString := False\<rparr>
                       else s)
                    else s);
              s2 = (if \<not> rip_inString s1 \<and> char = Some backtick
                    then s1\<lparr>rip_inTemplate := \<not> rip_inTemplate s1\<rparr> else s1)
          in if \<not> rip_inString s2 \<and> \<not> rip_inTemplate s2 then
               (if char = Some (CHR ''{'') then
                  Next (s2\<lparr>rip_depth := rip_depth s2 + 1, rip_i := i + 1\<rparr>)
                else if char = Some (CHR ''}'') then
                  (if rip_depth s2 - 1 = 0 then Done (s2\<lparr>rip_depth := rip_depth s2 - 1\<rparr>)
                   else Next (s2\<lparr>rip_depth := rip_depth s2 - 1, rip_i := i + 1\<rparr>))
                else Next (s2\<lparr>rip_i := i + 1\<rparr>))
             else Next (s2\<lparr>rip_i := i + 1\<rparr>))"

lemma rip_body_case:
  "(case rip_body t s of
      Next s' \<Rightarrow> rip_i s < rip_i s' \<and> (rip_depth s \<ge> 1 \<longrightarrow> rip_depth s' \<ge> 1)
    | Done s' \<Rightarrow> rip_i s' = rip_i s \<and> rip_depth s' = rip_depth s - 1)"
  by (simp add: rip_body_def Let_def)

lemma rip_body_advances: "rip_body t s = Next s' \<Longrightarrow> rip_i s < rip_i s'"
  using rip_body_case[where t = t and s = s] by simp

function rip_inner :: "string \<Rightarrow> rip_state \<Rightarrow> rip_state" where
  "rip_inner result s =
    (if rip_i s < length result \<and> rip_depth s > 0 then
       (case rip_body result s of Done s' \<Rightarrow> s' | Next s' \<Rightarrow> rip_inner result s')
     else s)"
  by pat_completeness auto
termination
  by (relation "measure (\<lambda>(result, s). length result - rip_i s)")
     (auto dest: rip_body_advances)

declare rip_inner.simps [simp del]

function rip_states :: "string \<Rightarrow> rip_state \<Rightarrow> rip_state list" where
  "rip_states result s =
    s # (if rip_i s < length result \<and> rip_depth s > 0 then
           (case rip_body result s of Done s' \<Rightarrow> [s'] | Next s' \<Rightarrow> rip_states result s')
         else [])"
  by pat_completeness auto
termination
  by (relation "measure (\<lambda>(result, s). length result - rip_i s)")
     (auto dest: rip_body_advances)

declare rip_states.simps [simp del]

definition rip_init :: "nat \<Rightarrow> rip_state" where
  \<comment> \<open>the state just after \<open>${\<close> at index \<open>startPos\<close>\<close>
  "rip_init startPos =
     \<lparr>rip_depth = 1, rip_i = startPos + 2, rip_inString = False, rip_inTemplate = False,
      rip_stringChar = None\<rparr>"

lemma rip_inner_bounds:
  "rip_depth s \<ge> 1 \<Longrightarrow>
     rip_i s \<le> rip_i (rip_inner t s)
     \<and> (rip_depth (rip_inner t s) = 0 \<longrightarrow> rip_i (rip_inner t s) < length t)"
proof (induction t s rule: rip_inner.induct)
  case (1 t s)
  have eq: "rip_inner t s =
    (if rip_i s < length t \<and> rip_depth s > 0 then
       (case rip_body t s of Done s' \<Rightarrow> s' | Next s' \<Rightarrow> rip_inner t s')
     else s)"
    by (rule rip_inner.simps)
  show ?case
  proof (cases "rip_i s < length t \<and> rip_depth s > 0")
    case False
    with "1.prems" show ?thesis by (simp add: eq)
  next
    case True
    show ?thesis
    proof (cases "rip_body t s")
      case (Done s')
      with True have r: "rip_inner t s = s'" by (simp add: eq)
      from Done rip_body_case[where t = t and s = s]
      have "rip_i s' = rip_i s" by simp
      with True r show ?thesis by simp
    next
      case (Next s')
      with True have r: "rip_inner t s = rip_inner t s'" by (simp add: eq)
      from Next rip_body_case[where t = t and s = s] "1.prems"
      have a: "rip_i s < rip_i s'" and d: "rip_depth s' \<ge> 1" by simp_all
      from "1.IH"[OF True Next d] a r show ?thesis by simp
    qed
  qed
qed

definition placeholderText :: string where
  "placeholderText = ''placeholder''"

function rip_outer :: "string \<Rightarrow> nat \<Rightarrow> string" where
  "rip_outer result i =
    (if i < length result then
       (if charAt result i = Some (CHR ''$'') \<and> charAt result (i + 1) = Some (CHR ''{'') then
          (let startPos = i;
               s = rip_inner result (rip_init startPos)
           in if rip_depth s = 0 then
                rip_outer
                  (substring result 0 startPos @ placeholderText
                     @ substringFrom result (rip_i s + 1))
                  (startPos + length placeholderText)
              else rip_outer result (rip_i s + 1))
        else rip_outer result (i + 1))
     else result)"
  by pat_completeness auto
termination
proof (relation "measure (\<lambda>(result, i). length result - i)", goal_cases)
  case 1
  show ?case by simp
next
  case (2 result i startPos s)
  from rip_inner_bounds[of "rip_init i" result] 2
  have "i + 2 \<le> rip_i s" "rip_i s < length result"
    by (simp_all add: rip_init_def)
  then show ?case
    by (simp add: substring_def substringFrom_def placeholderText_def)
next
  case (3 result i startPos s)
  from rip_inner_bounds[of "rip_init i" result] 3
  have "i + 2 \<le> rip_i s" by (simp add: rip_init_def)
  with 3 show ?case by simp
next
  case 4
  then show ?case by simp
qed

declare rip_outer.simps [simp del]

definition replaceInterpolationsWithPlaceholders :: "string \<Rightarrow> string" where
  "replaceInterpolationsWithPlaceholders html = rip_outer html 0"

section \<open>Character classes and string helpers of the regular expressions\<close>

definition isAlpha :: "char \<Rightarrow> bool" where
  \<comment> \<open>\<open>[a-zA-Z]\<close>\<close>
  "isAlpha c = (c \<in> set ''abcdefghijklmnopqrstuvwxyzABCDEFGHIJKLMNOPQRSTUVWXYZ'')"

definition isDigit :: "char \<Rightarrow> bool" where
  \<comment> \<open>\<open>[0-9]\<close>\<close>
  "isDigit c = (c \<in> set ''0123456789'')"

definition isAlnum :: "char \<Rightarrow> bool" where
  \<comment> \<open>\<open>[a-zA-Z0-9]\<close>\<close>
  "isAlnum c = (isAlpha c \<or> isDigit c)"

definition isWordChar :: "char \<Rightarrow> bool" where
  \<comment> \<open>\<open>\w\<close>, the class that \<open>\b\<close> looks at\<close>
  "isWordChar c = (isAlnum c \<or> c = CHR ''_'')"

definition isIdentStart :: "char \<Rightarrow> bool" where
  \<comment> \<open>\<open>[a-zA-Z_$]\<close>\<close>
  "isIdentStart c = (isAlpha c \<or> c = CHR ''_'' \<or> c = CHR ''$'')"

definition isIdentChar :: "char \<Rightarrow> bool" where
  \<comment> \<open>\<open>[a-zA-Z0-9_$]\<close>\<close>
  "isIdentChar c = (isAlnum c \<or> c = CHR ''_'' \<or> c = CHR ''$'')"

definition isSpace :: "char \<Rightarrow> bool" where
  \<comment> \<open>\<open>\s\<close>, and what \<open>trim()\<close> removes, among the code units below 256: tab, line feed,
      vertical tab, form feed, carriage return, space and the no-break space U+00A0\<close>
  "isSpace c = (c \<in> {CHR 0x09, CHR 0x0A, CHR 0x0B, CHR 0x0C, CHR 0x0D, CHR 0x20, CHR 0xA0})"

definition skipSpace :: "string \<Rightarrow> string" where
  \<comment> \<open>a greedy \<open>\s*\<close>\<close>
  "skipSpace xs = dropWhile isSpace xs"

definition trim :: "string \<Rightarrow> string" where
  "trim xs = rev (dropWhile isSpace (rev (dropWhile isSpace xs)))"

definition startsWith :: "string \<Rightarrow> string \<Rightarrow> bool" where
  \<comment> \<open>\<open>s.startsWith(p)\<close>\<close>
  "startsWith p s = (take (length p) s = p)"

definition endsWith :: "string \<Rightarrow> string \<Rightarrow> bool" where
  \<comment> \<open>\<open>s.endsWith(p)\<close>\<close>
  "endsWith p s = (length p \<le> length s \<and> drop (length s - length p) s = p)"

fun includesStr :: "string \<Rightarrow> string \<Rightarrow> bool" where
  \<comment> \<open>\<open>s.includes(p)\<close>\<close>
  "includesStr p [] = (p = [])"
| "includesStr p (c # cs) = (startsWith p (c # cs) \<or> includesStr p cs)"

definition stripPrefix :: "string \<Rightarrow> string \<Rightarrow> string option" where
  \<comment> \<open>a literal piece of a pattern: what is left of the input after it\<close>
  "stripPrefix p xs = (if startsWith p xs then Some (drop (length p) xs) else None)"

definition toLowerChar :: "char \<Rightarrow> char" where
  \<comment> \<open>the lower-case mapping of the code units below 256: \<open>A\<close> to \<open>Z\<close>, and U+00C0 to
      U+00DE without the multiplication sign U+00D7, move up by 32\<close>
  "toLowerChar c =
     (let n = (of_char c :: nat)
      in if (65 \<le> n \<and> n \<le> 90) \<or> (192 \<le> n \<and> n \<le> 222 \<and> n \<noteq> 215)
         then char_of (n + 32) else c)"

definition toLowerCase :: "string \<Rightarrow> string" where
  \<comment> \<open>\<open>s.toLowerCase()\<close>\<close>
  "toLowerCase s = map toLowerChar s"

section \<open>The diagnostic provider: tag scanning and tag balance\<close>

record tag_match =
  tm_fullMatch :: string
  tm_tagName :: string
  tm_index :: nat

text \<open>
  The pattern \<open><\/?([a-zA-Z][a-zA-Z0-9]*)[^>]*>\<close> tried at the start of \<open>xs\<close>: a \<open><\<close>, an
  optional \<open>/\<close>, a letter, the longest run of letters and digits (the captured name), then
  everything up to the first \<open>>\<close>. The pieces after the name accept whatever the name
  could give back, so the match exists exactly when some \<open>>\<close> follows, and the result is
  the length of the match with the captured name.
\<close>

definition tagMatchAt :: "string \<Rightarrow> (nat \<times> string) option" where
  "tagMatchAt xs =
    (case xs of
       [] \<Rightarrow> None
     | c0 # r \<Rightarrow>
        if c0 \<noteq> CHR ''<'' then None
        else
          let slash = (case r of [] \<Rightarrow> False | c1 # _ \<Rightarrow> c1 = CHR ''/'');
              body = (if slash then tl r else r)
          in (case body of
                [] \<Rightarrow> None
              | c # cs \<Rightarrow>
                 if isAlpha c then
                   (let name = c # takeWhile isAlnum cs;
                        rest = dropWhile isAlnum cs;
                        attrs = takeWhile (\<lambda>x. x \<noteq> CHR ''>'') rest
                    in if length attrs < length rest
                       then Some (Suc ((if slash then 1 else 0) + length name + length attrs + 1),
                                  name)
                       else None)
                 else None))"

lemma tagMatchAt_pos: "tagMatchAt xs = Some (n, name) \<Longrightarrow> 0 < n"
  by (auto simp: tagMatchAt_def Let_def split: list.splits if_splits)

text \<open>
  The loop \<open>while ((match = tagRegex.exec(cleanedHtml)) !== null)\<close>: all matches from left
  to right; \<open>pos\<close> is the index of the first character of \<open>xs\<close> in \<open>cleanedHtml\<close>.
\<close>

function tagScan :: "nat \<Rightarrow> string \<Rightarrow> tag_match list" where
  "tagScan pos xs =
    (if xs = [] then []
     else (case tagMatchAt xs of
             Some (n, name) \<Rightarrow>
               \<lparr>tm_fullMatch = take n xs, tm_tagName = name, tm_index = pos\<rparr>
                 # tagScan (pos + n) (drop n xs)
           | None \<Rightarrow> tagScan (pos + 1) (tl xs)))"
  by pat_completeness auto
termination
  by (relation "measure (\<lambda>(pos, xs). length xs)")
     (auto dest: tagMatchAt_pos)

declare tagScan.simps [simp del]

definition selfClosingTags :: "string list" where
  "selfClosingTags =
     [''area'', ''base'', ''br'', ''col'', ''embed'', ''hr'', ''img'', ''input'', ''link'',
      ''meta'', ''param'', ''source'', ''track'', ''wbr'']"

definition isSelfClosingTag :: "string \<Rightarrow> bool" where
  "isSelfClosingTag tagName = (toLowerCase tagName \<in> set selfClosingTags)"

datatype severity = Error | Warning

record diagnostic =
  range_start :: nat
  range_end :: nat
  message :: string
  severity :: severity

text \<open>
  A diagnostic's range is kept as the two document offsets handed to
  \<open>document.positionAt\<close>. The open-tag stack is a JavaScript array: \<open>push\<close> appends at
  the end, \<open>pop\<close> removes the last element.
\<close>

type_synonym open_tag = "string \<times> nat"

definition tag_step ::
  "nat \<Rightarrow> tag_match \<Rightarrow> open_tag list \<times> diagnostic list \<Rightarrow> open_tag list \<times> diagnostic list"
where
  "tag_step offset m st =
    (let stack = fst st;
         diagnostics = snd st;
         fullMatch = tm_fullMatch m;
         tagName = tm_tagName m;
         isClosing = startsWith ''</'' fullMatch;
         isSelfClosing = (endsWith ''/>'' fullMatch \<or> isSelfClosingTag tagName);
         pos = offset + tm_index m
     in if isClosing then
          (if stack = [] then
             (stack,
              diagnostics @
                [\<lparr>range_start = pos, range_end = pos + length fullMatch,
                  message = ''Unmatched closing tag </'' @ tagName @ ''>'',
                  severity = Error\<rparr>])
           else
             (let last = last stack
              in (butlast stack,
                  if fst last \<noteq> tagName then
                    diagnostics @
                      [\<lparr>range_start = pos, range_end = pos + length fullMatch,
                        message = ''Expected closing tag </'' @ fst last @ ''> but found </''
                                  @ tagName @ ''>'',
                        severity = Error\<rparr>]
                  else diagnostics)))
        else if \<not> isSelfClosing then (stack @ [(tagName, pos)], diagnostics)
        else (stack, diagnostics))"

definition unclosedDiagnostic :: "open_tag \<Rightarrow> diagnostic" where
  "unclosedDiagnostic unclosed =
     \<lparr>range_start = snd unclosed, range_end = snd unclosed + length (fst unclosed) + 2,
      message = ''Unclosed tag <'' @ fst unclosed @ ''>'', severity = Warning\<rparr>"

definition tagBalance :: "nat \<Rightarrow> string \<Rightarrow> diagnostic list" where
  \<comment> \<open>the last part of \<open>validateHTML\<close>: the tag loop over \<open>cleanedHtml\<close> and the report of
      the tags left on the stack\<close>
  "tagBalance offset cleanedHtml =
    (let st = foldl (\<lambda>st m. tag_step offset m st) ([], []) (tagScan 0 cleanedHtml)
     in snd st @ map unclosedDiagnostic (fst st))"

section \<open>The leader patterns\<close>

text \<open>
  The providers build their pattern from the configured tag names,
  \<open>((?:T)\s*|\b[a-zA-Z_$][a-zA-Z0-9_$]*\s*/\*\s*html\s*\*/\s*|/\*\s*html\s*\*/\s*)`\<close>
  with \<open>T = tagPatterns.join('|')\<close>; the folding provider's pattern lacks the third
  alternative. The names are spliced into the pattern as they are. A name made of letters,
  digits and underscores only is a pattern that matches exactly itself; the configurations
  covered are those of such names (\<open>plainTagNames\<close>, which every statement about an
  arbitrary configuration assumes), so \<open>T\<close> is the alternation of the names, and the empty
  configuration gives the single empty alternative.

  A matcher takes the character before the position (for \<open>\b\<close>) and the input from the
  position on, and returns what is left of the input behind the piece it matched. Every
  repetition in these patterns is followed by a character outside its class, so the greedy
  choice is the only one that can succeed; the alternatives are tried in the order of the
  pattern, and an alternative counts only if the rest of the pattern matches behind it.
\<close>

datatype leader_kind = DiagLeader | FoldLeader


definition tagAlternatives :: "string list \<Rightarrow> string list" where
  "tagAlternatives tagPatterns = (if tagPatterns = [] then [[]] else tagPatterns)"

definition commentAnnotation :: "string \<Rightarrow> string option" where
  \<comment> \<open>\<open>/\*\s*html\s*\*/\s*\<close>\<close>
  "commentAnnotation xs =
    (case stripPrefix ''/*'' xs of
       None \<Rightarrow> None
     | Some a \<Rightarrow>
        (case stripPrefix ''html'' (skipSpace a) of
           None \<Rightarrow> None
         | Some b \<Rightarrow>
            (case stripPrefix ''*/'' (skipSpace b) of
               None \<Rightarrow> None
             | Some c \<Rightarrow> Some (skipSpace c))))"

definition wordBoundary :: "char option \<Rightarrow> char option \<Rightarrow> bool" where
  \<comment> \<open>\<open>\b\<close> between the previous and the current character\<close>
  "wordBoundary prev cur =
     ((case prev of None \<Rightarrow> False | Some c \<Rightarrow> isWordChar c)
      \<noteq> (case cur of None \<Rightarrow> False | Some c \<Rightarrow> isWordChar c))"

definition identAnnotation :: "char option \<Rightarrow> string \<Rightarrow> string option" where
  \<comment> \<open>\<open>\b[a-zA-Z_$][a-zA-Z0-9_$]*\s*/\*\s*html\s*\*/\s*\<close>\<close>
  "identAnnotation prev xs =
    (case xs of
       [] \<Rightarrow> None
     | c # cs \<Rightarrow>
        if wordBoundary prev (Some c) \<and> isIdentStart c
        then commentAnnotation (skipSpace (dropWhile isIdentChar cs))
        else None)"

definition leaderGroup ::
  "leader_kind \<Rightarrow> string list \<Rightarrow> char option \<Rightarrow> string \<Rightarrow> string option list" where
  \<comment> \<open>the alternatives of the first group, in order\<close>
  "leaderGroup kind tagPatterns prev xs =
     map (\<lambda>p. map_option skipSpace (stripPrefix p xs)) (tagAlternatives tagPatterns)
     @ [identAnnotation prev xs]
     @ (if kind = DiagLeader then [commentAnnotation xs] else [])"

fun firstSome :: "'a option list \<Rightarrow> 'a option" where
  "firstSome [] = None"
| "firstSome (None # rs) = firstSome rs"
| "firstSome (Some r # rs) = Some r"

definition thenBacktick :: "string option \<Rightarrow> string option" where
  "thenBacktick r =
    (case r of
       None \<Rightarrow> None
     | Some [] \<Rightarrow> None
     | Some (c # rest) \<Rightarrow> if c = backtick then Some rest else None)"

definition leaderMatchAt ::
  "leader_kind \<Rightarrow> string list \<Rightarrow> char option \<Rightarrow> string \<Rightarrow> nat option" where
  \<comment> \<open>the length of \<open>match[0]\<close> (leader and backtick) for a match that starts at \<open>xs\<close>\<close>
  "leaderMatchAt kind tagPatterns prev xs =
     map_option (\<lambda>rest. length xs - length rest)
       (firstSome (map thenBacktick (leaderGroup kind tagPatterns prev xs)))"

lemma length_skipSpace: "length (skipSpace xs) \<le> length xs"
  by (simp add: skipSpace_def length_dropWhile_le)

lemma length_stripPrefix: "stripPrefix p xs = Some r \<Longrightarrow> length r \<le> length xs"
  by (auto simp: stripPrefix_def split: if_splits)

lemma length_commentAnnotation: "commentAnnotation xs = Some r \<Longrightarrow> length r \<le> length xs"
proof -
  assume a: "commentAnnotation xs = Some r"
  then obtain a1 b1 c1 where
    1: "stripPrefix ''/*'' xs = Some a1" and
    2: "stripPrefix ''html'' (skipSpace a1) = Some b1" and
    3: "stripPrefix ''*/'' (skipSpace b1) = Some c1" and
    4: "r = skipSpace c1"
    by (auto simp: commentAnnotation_def split: option.splits)
  from length_stripPrefix[OF 1] length_stripPrefix[OF 2] length_stripPrefix[OF 3]
    length_skipSpace[of a1] length_skipSpace[of b1] length_skipSpace[of c1] 4
  show ?thesis by simp
qed

lemma length_identAnnotation:
  "identAnnotation prev xs = Some r \<Longrightarrow> length r \<le> length xs"
proof -
  assume a: "identAnnotation prev xs = Some r"
  then obtain c cs where xs: "xs = c # cs"
    and r: "commentAnnotation (skipSpace (dropWhile isIdentChar cs)) = Some r"
    by (auto simp: identAnnotation_def split: list.splits if_splits)
  from length_commentAnnotation[OF r] length_skipSpace[of "dropWhile isIdentChar cs"]
    length_dropWhile_le[of isIdentChar cs] xs
  show ?thesis by simp
qed

lemma length_tagAlternative:
  "map_option skipSpace (stripPrefix p xs) = Some r \<Longrightarrow> length r \<le> length xs"
proof -
  assume "map_option skipSpace (stripPrefix p xs) = Some r"
  then obtain a where a: "stripPrefix p xs = Some a" and r: "r = skipSpace a"
    by auto
  from length_stripPrefix[OF a] length_skipSpace[of a] r show ?thesis by simp
qed

lemma leaderGroup_length:
  "Some r \<in> set (leaderGroup kind tagPatterns prev xs) \<Longrightarrow> length r \<le> length xs"
proof -
  assume "Some r \<in> set (leaderGroup kind tagPatterns prev xs)"
  then have "(\<exists>p. Some r = map_option skipSpace (stripPrefix p xs))
      \<or> Some r = identAnnotation prev xs \<or> Some r = commentAnnotation xs"
    by (auto simp: leaderGroup_def split: if_splits)
  then show ?thesis
    using length_tagAlternative[OF sym] length_identAnnotation[OF sym]
      length_commentAnnotation[OF sym] by blast
qed

lemma firstSome_mem: "firstSome rs = Some r \<Longrightarrow> Some r \<in> set rs"
  by (induction rs rule: firstSome.induct) auto

lemma thenBacktick_Some:
  "thenBacktick r = Some rest \<Longrightarrow> r = Some (backtick # rest)"
  by (auto simp: thenBacktick_def split: option.splits list.splits if_splits)

lemma leaderMatchAt_bounds:
  "leaderMatchAt kind tagPatterns prev xs = Some n \<Longrightarrow> 0 < n \<and> n \<le> length xs"
proof -
  assume "leaderMatchAt kind tagPatterns prev xs = Some n"
  then obtain rest where
    f: "firstSome (map thenBacktick (leaderGroup kind tagPatterns prev xs)) = Some rest"
    and n: "n = length xs - length rest"
    by (auto simp: leaderMatchAt_def)
  from firstSome_mem[OF f] obtain r where
    r: "r \<in> set (leaderGroup kind tagPatterns prev xs)" and t: "thenBacktick r = Some rest"
    by auto
  from thenBacktick_Some[OF t] r leaderGroup_length[of "backtick # rest" kind tagPatterns prev xs]
  have "Suc (length rest) \<le> length xs" by simp
  with n show ?thesis by simp
qed

text \<open>
  The loop \<open>while ((match = regex.exec(text)) !== null)\<close> of a global pattern: the matches
  from left to right, each as \<open>(match.index, match[0].length)\<close>; the cursor \<open>p\<close> is
  \<open>lastIndex\<close>.
\<close>

function leaderScan :: "leader_kind \<Rightarrow> string list \<Rightarrow> string \<Rightarrow> nat \<Rightarrow> (nat \<times> nat) list" where
  "leaderScan kind tagPatterns text p =
    (if p < length text then
       (case leaderMatchAt kind tagPatterns (if p > 0 then charAt text (p - 1) else None)
               (drop p text) of
          Some n \<Rightarrow> (p, n) # leaderScan kind tagPatterns text (p + n)
        | None \<Rightarrow> leaderScan kind tagPatterns text (p + 1))
     else [])"
  by pat_completeness auto
termination
  by (relation "measure (\<lambda>(kind, tagPatterns, text, p). length text - p)")
     (auto dest: leaderMatchAt_bounds)

declare leaderScan.simps [simp del]

section \<open>The diagnostic provider: findMatchingBrace and extractOuterTags\<close>

function fmb_loop :: "string \<Rightarrow> nat \<Rightarrow> int \<Rightarrow> int" where
  "fmb_loop text i depth =
    (if i < length text \<and> depth > 0 then
       (if charAt text i = Some (CHR ''{'') then fmb_loop text (i + 1) (depth + 1)
        else if charAt text i = Some (CHR ''}'') then
          (if depth - 1 = 0 then int i else fmb_loop text (i + 1) (depth - 1))
        else fmb_loop text (i + 1) depth)
     else - 1)"
  by pat_completeness auto
termination
  by (relation "measure (\<lambda>(text, i, depth). length text - i)") auto

declare fmb_loop.simps [simp del]

definition findMatchingBrace :: "string \<Rightarrow> nat \<Rightarrow> int" where
  "findMatchingBrace text startPos = fmb_loop text (startPos + 1) 1"

definition indexOfFrom :: "char \<Rightarrow> string \<Rightarrow> nat \<Rightarrow> nat option" where
  \<comment> \<open>\<open>s.indexOf(c, from)\<close>; \<open>None\<close> is \<open>-1\<close>\<close>
  "indexOfFrom c xs from =
    (let ys = drop from xs
     in if c \<in> set ys then Some (from + length (takeWhile (\<lambda>x. x \<noteq> c) ys)) else None)"

text \<open>
  The pattern of \<open>extractOuterTags\<close>,
  \<open>(\b[a-zA-Z_$][a-zA-Z0-9_$]*\s*\/\*\s*html\s*\*\/\s*|html|dom)\s*`\<close>, with fixed names;
  \<open>nestedLeaderIndex\<close> is \<open>match.index\<close> of its first match.
\<close>

definition nestedLeaderAt :: "char option \<Rightarrow> string \<Rightarrow> bool" where
  "nestedLeaderAt prev xs =
     (firstSome (map (\<lambda>r. thenBacktick (map_option skipSpace r))
        [identAnnotation prev xs, stripPrefix ''html'' xs, stripPrefix ''dom'' xs]) \<noteq> None)"

fun nestedLeaderIndex :: "char option \<Rightarrow> nat \<Rightarrow> string \<Rightarrow> nat option" where
  "nestedLeaderIndex prev pos [] = None"
| "nestedLeaderIndex prev pos (c # cs) =
     (if nestedLeaderAt prev (c # cs) then Some pos
      else nestedLeaderIndex (Some c) (pos + 1) cs)"

text \<open>
  The loop that removes leading interpolations. \<open>Inr\<close> is the early
  \<open>return this.extractOuterTags(templateContent)\<close>, with the content to recurse into;
  \<open>Inl\<close> is the value of \<open>cleanedForAnalysis\<close> when the loop ends. The test
  \<open>if (templateContent)\<close> fails on \<open>null\<close> and on the empty string.
\<close>

definition nestedTemplateIn :: "string \<Rightarrow> string option" where
  "nestedTemplateIn interpolationContent =
    (case nestedLeaderIndex None 0 interpolationContent of
       None \<Rightarrow> None
     | Some index \<Rightarrow>
        (case indexOfFrom backtick interpolationContent index of
           None \<Rightarrow> None
         | Some templateStart \<Rightarrow>
            (case extractTemplateContent interpolationContent (templateStart + 1) of
               None \<Rightarrow> None
             | Some templateContent \<Rightarrow>
                if templateContent \<noteq> [] then Some templateContent else None)))"

lemma length_trim: "length (trim xs) \<le> length xs"
proof -
  have "length (trim xs) \<le> length (dropWhile isSpace xs)"
    using length_dropWhile_le[of isSpace "rev (dropWhile isSpace xs)"]
    by (simp add: trim_def)
  also have "\<dots> \<le> length xs" by (rule length_dropWhile_le)
  finally show ?thesis .
qed

function eot_loop :: "string \<Rightarrow> string + string" where
  "eot_loop cleanedForAnalysis =
    (if startsWith ''${'' cleanedForAnalysis then
       (let endBrace = findMatchingBrace cleanedForAnalysis 1
        in if endBrace = - 1 then Inl cleanedForAnalysis
           else (case nestedTemplateIn (substring cleanedForAnalysis 2 (nat endBrace)) of
                   Some templateContent \<Rightarrow> Inr templateContent
                 | None \<Rightarrow>
                    eot_loop (trim (substringFrom cleanedForAnalysis (nat endBrace + 1)))))
     else Inl cleanedForAnalysis)"
  by pat_completeness auto
termination
proof (relation "measure length", goal_cases)
  case 1
  show ?case by simp
next
  case (2 c endBrace)
  from 2(1) have "c \<noteq> []" by (auto simp: startsWith_def)
  then have "length (drop (nat endBrace + 1) c) < length c" by simp
  with length_trim[of "drop (nat endBrace + 1) c"] show ?case
    by (simp add: substringFrom_def)
qed

declare eot_loop.simps [simp del]

text \<open>The pattern \<open>^<([a-zA-Z][a-zA-Z0-9]*)[^>]*>\<close>: the captured name and the whole match.\<close>

definition openTagMatch :: "string \<Rightarrow> (string \<times> string) option" where
  "openTagMatch xs =
    (case xs of
       [] \<Rightarrow> None
     | c0 # r \<Rightarrow>
        if c0 \<noteq> CHR ''<'' then None
        else (case r of
                [] \<Rightarrow> None
              | c # cs \<Rightarrow>
                 if isAlpha c then
                   (let name = c # takeWhile isAlnum cs;
                        rest = dropWhile isAlnum cs;
                        attrs = takeWhile (\<lambda>x. x \<noteq> CHR ''>'') rest
                    in if length attrs < length rest
                       then Some (name, take (1 + length name + length attrs + 1) xs)
                       else None)
                 else None))"

definition firstTagStructure :: "string \<Rightarrow> string" where
  \<comment> \<open>The end of \<open>extractOuterTags\<close>. The source then checks for further top-level
      elements, and returns \<open><T></T>\<close> on both sides of that check.\<close>
  "firstTagStructure cleanedForAnalysis =
    (case openTagMatch cleanedForAnalysis of
       None \<Rightarrow> ''<span></span>''
     | Some (tagName, openingTag) \<Rightarrow>
        if endsWith ''/>'' openingTag then openingTag
        else ''<'' @ tagName @ ''></'' @ tagName @ ''>'')"

lemma etc_body_Done_case:
  "(case etc_body t p s of Done r \<Rightarrow> r = substring t p (etc_i s) | Next s' \<Rightarrow> True)"
  by (simp add: etc_body_def Let_def)

lemma etc_loop_length: "etc_loop t p s = Some c \<Longrightarrow> length c < length t"
proof (induction t p s rule: etc_loop.induct)
  case (1 t p s)
  have eq: "etc_loop t p s =
    (if etc_i s < length t then
       (case etc_body t p s of Done r \<Rightarrow> Some r | Next s' \<Rightarrow> etc_loop t p s')
     else None)"
    by (rule etc_loop.simps)
  show ?case
  proof (cases "etc_i s < length t")
    case False
    with "1.prems" show ?thesis by (simp add: eq)
  next
    case True
    show ?thesis
    proof (cases "etc_body t p s")
      case (Done r)
      with True "1.prems" have "c = r" by (simp add: eq)
      moreover from Done etc_body_Done_case[where t = t and p = p and s = s]
      have "r = substring t p (etc_i s)" by simp
      ultimately show ?thesis using True by (simp add: substring_def)
    next
      case (Next s')
      with True "1.prems" have "etc_loop t p s' = Some c" by (simp add: eq)
      with "1.IH"[OF True Next] show ?thesis by simp
    qed
  qed
qed

lemma extractTemplateContent_length:
  "extractTemplateContent t p = Some c \<Longrightarrow> length c < length t"
  unfolding extractTemplateContent_def by (rule etc_loop_length)

lemma nestedTemplateIn_length:
  "nestedTemplateIn ic = Some tc \<Longrightarrow> length tc < length ic"
  by (auto simp: nestedTemplateIn_def split: option.splits if_splits
      dest: extractTemplateContent_length)

lemma eot_loop_length: "eot_loop x = Inr tc \<Longrightarrow> length tc < length x"
proof (induction x rule: eot_loop.induct)
  case (1 c)
  have eq: "eot_loop c =
    (if startsWith ''${'' c then
       (let endBrace = findMatchingBrace c 1
        in if endBrace = - 1 then Inl c
           else (case nestedTemplateIn (substring c 2 (nat endBrace)) of
                   Some templateContent \<Rightarrow> Inr templateContent
                 | None \<Rightarrow> eot_loop (trim (substringFrom c (nat endBrace + 1)))))
     else Inl c)"
    by (rule eot_loop.simps)
  show ?case
  proof (cases "startsWith ''${'' c \<and> findMatchingBrace c 1 \<noteq> - 1")
    case False
    with "1.prems" show ?thesis by (auto simp: eq Let_def split: if_splits)
  next
    case True
    show ?thesis
    proof (cases "nestedTemplateIn (substring c 2 (nat (findMatchingBrace c 1)))")
      case (Some a)
      with True "1.prems" have "a = tc" by (simp add: eq Let_def)
      with nestedTemplateIn_length[OF Some] show ?thesis
        by (auto simp: substring_def)
    next
      case None
      with True "1.prems"
      have r: "eot_loop (trim (substringFrom c (nat (findMatchingBrace c 1) + 1))) = Inr tc"
        by (simp add: eq Let_def)
      from True have t1: "startsWith ''${'' c" and t2: "findMatchingBrace c 1 \<noteq> - 1" by simp_all
      from "1.IH"[OF t1 refl t2 None r]
        length_trim[of "substringFrom c (nat (findMatchingBrace c 1) + 1)"]
      show ?thesis by (simp add: substringFrom_def)
    qed
  qed
qed

function extractOuterTags :: "string \<Rightarrow> string" where
  "extractOuterTags html =
    (case eot_loop (trim html) of
       Inr templateContent \<Rightarrow> extractOuterTags templateContent
     | Inl cleanedForAnalysis \<Rightarrow> firstTagStructure cleanedForAnalysis)"
  by pat_completeness auto
termination
proof (relation "measure length", goal_cases)
  case 1
  show ?case by simp
next
  case (2 html tc)
  from eot_loop_length[OF 2] length_trim[of html] show ?case by simp
qed

declare extractOuterTags.simps [simp del]

section \<open>The diagnostic provider: validateHTML and updateDiagnostics\<close>

record nested_template =
  nt_content :: string
  nt_offset :: nat
  nt_outerStructure :: string

text \<open>
  The first loop of \<open>validateHTML\<close>: every match of the leader pattern in \<open>html\<close> whose
  template content can be extracted. The field \<open>inInterpolation\<close> that the source also
  computes is never read afterwards and is left out.
\<close>

definition nestedTemplateOf :: "string \<Rightarrow> nat \<Rightarrow> nat \<times> nat \<Rightarrow> nested_template list" where
  "nestedTemplateOf html offset nestedMatch =
    (let startPos = fst nestedMatch + snd nestedMatch - 1
     in (case extractTemplateContent html (startPos + 1) of
           None \<Rightarrow> []
         | Some templateContent \<Rightarrow>
            [\<lparr>nt_content = templateContent, nt_offset = offset + startPos + 1,
              nt_outerStructure = extractOuterTags templateContent\<rparr>]))"

definition findNestedTemplates :: "string list \<Rightarrow> string \<Rightarrow> nat \<Rightarrow> nested_template list" where
  "findNestedTemplates tagPatterns html offset =
     concat (map (nestedTemplateOf html offset) (leaderScan DiagLeader tagPatterns html 0))"

text \<open>
  \<open>templateReplacements\<close> is a JavaScript \<open>Map\<close>: setting a key that is present replaces
  its value in place, a new key goes to the end; the callback returns the value of the
  first entry whose key equals the captured content.
\<close>

fun mapSet :: "(string \<times> string) list \<Rightarrow> string \<Rightarrow> string \<Rightarrow> (string \<times> string) list" where
  "mapSet [] k v = [(k, v)]"
| "mapSet (e # es) k v = (if fst e = k then (k, v) # es else e # mapSet es k v)"

definition templateReplacements :: "nested_template list \<Rightarrow> (string \<times> string) list" where
  "templateReplacements nestedTemplates =
     foldl (\<lambda>m template. mapSet m (nt_content template) (nt_outerStructure template)) []
       nestedTemplates"

fun replacementFor :: "(string \<times> string) list \<Rightarrow> string \<Rightarrow> string option" where
  "replacementFor [] content = None"
| "replacementFor (e # es) content =
     (if content = fst e then Some (snd e) else replacementFor es content)"

text \<open>
  The replacement pattern is the leader group followed by \<open>([\s\S]*?)`\<close>: behind the
  leader, the shortest text up to a backtick. It matches for the first alternative of the
  group behind which a backtick occurs at all; the result is the length of the match and
  the captured content.
\<close>

definition thenLazyBacktick :: "nat \<Rightarrow> string option \<Rightarrow> (nat \<times> string) option" where
  "thenLazyBacktick len r =
    (case r of
       None \<Rightarrow> None
     | Some ys \<Rightarrow>
        if backtick \<in> set ys
        then Some (Suc (len - length (dropWhile (\<lambda>x. x \<noteq> backtick) ys)),
                   takeWhile (\<lambda>x. x \<noteq> backtick) ys)
        else None)"

definition nestedRegexAt ::
  "string list \<Rightarrow> char option \<Rightarrow> string \<Rightarrow> (nat \<times> string) option" where
  "nestedRegexAt tagPatterns prev xs =
     firstSome (map (thenLazyBacktick (length xs)) (leaderGroup DiagLeader tagPatterns prev xs))"

lemma thenLazyBacktick_pos: "thenLazyBacktick len r = Some (n, content) \<Longrightarrow> 0 < n"
  by (auto simp: thenLazyBacktick_def split: option.splits if_splits)

lemma nestedRegexAt_pos: "nestedRegexAt tagPatterns prev xs = Some (n, content) \<Longrightarrow> 0 < n"
proof -
  assume "nestedRegexAt tagPatterns prev xs = Some (n, content)"
  from firstSome_mem[OF this[unfolded nestedRegexAt_def]]
  obtain r where "thenLazyBacktick (length xs) r = Some (n, content)" by auto
  then show ?thesis by (rule thenLazyBacktick_pos)
qed

text \<open>
  One call of \<open>cleanedHtml.replace(nestedRegex, callback)\<close> from index \<open>p\<close> on: the new
  text, and whether the callback made a replacement.
\<close>

function replacePass ::
  "string list \<Rightarrow> (string \<times> string) list \<Rightarrow> string \<Rightarrow> nat \<Rightarrow> string \<times> bool" where
  "replacePass tagPatterns m text p =
    (if p < length text then
       (case nestedRegexAt tagPatterns (if p > 0 then charAt text (p - 1) else None)
               (drop p text) of
          Some (n, content) \<Rightarrow>
            (let rest = replacePass tagPatterns m text (p + n)
             in (case replacementFor m content of
                   Some outerStructure \<Rightarrow> (outerStructure @ fst rest, True)
                 | None \<Rightarrow> (take n (drop p text) @ fst rest, snd rest)))
        | None \<Rightarrow>
            (let rest = replacePass tagPatterns m text (p + 1)
             in (text ! p # fst rest, snd rest)))
     else ([], False))"
  by pat_completeness auto
termination
  by (relation "measure (\<lambda>(tagPatterns, m, text, p). length text - p)")
     (auto dest: nestedRegexAt_pos)

declare replacePass.simps [simp del]

function replaceLoop ::
  "string list \<Rightarrow> (string \<times> string) list \<Rightarrow> string \<Rightarrow> bool \<Rightarrow> nat \<Rightarrow> string" where
  "replaceLoop tagPatterns m cleanedHtml replacementsMade iterations =
    (if replacementsMade \<and> iterations < 20 then
       (let r = replacePass tagPatterns m cleanedHtml 0
        in replaceLoop tagPatterns m (fst r) (snd r) (iterations + 1))
     else cleanedHtml)"
  by pat_completeness auto
termination
  by (relation "measure (\<lambda>(tagPatterns, m, cleanedHtml, replacementsMade, iterations).
        20 - iterations)") auto

declare replaceLoop.simps [simp del]

definition cleanHtml :: "string list \<Rightarrow> nested_template list \<Rightarrow> string \<Rightarrow> string" where
  \<comment> \<open>from \<open>let cleanedHtml = html\<close> to the call of
      \<open>replaceInterpolationsWithPlaceholders\<close>\<close>
  "cleanHtml tagPatterns nestedTemplates html =
    (let cleanedHtml =
           (if nestedTemplates \<noteq> []
            then replaceLoop tagPatterns (templateReplacements nestedTemplates) html True 0
            else html)
     in if includesStr ''${'' cleanedHtml
        then replaceInterpolationsWithPlaceholders cleanedHtml
        else cleanedHtml)"

lemma nestedTemplateOf_length:
  "n \<in> set (nestedTemplateOf html offset nestedMatch) \<Longrightarrow> length (nt_content n) < length html"
proof (cases "extractTemplateContent html (fst nestedMatch + snd nestedMatch - 1 + 1)")
  case None
  assume "n \<in> set (nestedTemplateOf html offset nestedMatch)"
  with None show ?thesis by (simp add: nestedTemplateOf_def Let_def)
next
  case (Some c)
  assume "n \<in> set (nestedTemplateOf html offset nestedMatch)"
  with Some have "nt_content n = c" by (simp add: nestedTemplateOf_def Let_def)
  with extractTemplateContent_length[OF Some] show ?thesis by simp
qed

lemma findNestedTemplates_length:
  "n \<in> set (findNestedTemplates tagPatterns html offset)
     \<Longrightarrow> length (nt_content n) < length html"
  by (auto simp: findNestedTemplates_def dest: nestedTemplateOf_length)

text \<open>
  \<open>validateHTML\<close> appends to the diagnostics array it is given; the model returns what
  one call appends: the diagnostics of the nested templates (each validated unless its
  offset is inside a comment of the document), then those of the tag loop.
\<close>

function validateHTML :: "string list \<Rightarrow> string \<Rightarrow> string \<Rightarrow> nat \<Rightarrow> diagnostic list" where
  "validateHTML tagPatterns docText html offset =
    concat (map (\<lambda>nested.
                   if \<not> isInsideComment docText (nt_offset nested)
                   then validateHTML tagPatterns docText (nt_content nested) (nt_offset nested)
                   else [])
              (findNestedTemplates tagPatterns html offset))
    @ tagBalance offset
        (cleanHtml tagPatterns (findNestedTemplates tagPatterns html offset) html)"
  by pat_completeness auto
termination
  by (relation "measure (\<lambda>(tagPatterns, docText, html, offset). length html)")
     (auto dest: findNestedTemplates_length)

declare validateHTML.simps [simp del]

text \<open>
  \<open>updateDiagnostics\<close> for a document of a supported language: the diagnostics it stores
  for the document.
\<close>

definition diagnosticsOfMatch :: "string list \<Rightarrow> string \<Rightarrow> nat \<times> nat \<Rightarrow> diagnostic list" where
  "diagnosticsOfMatch tagPatterns text m =
    (let startPos = fst m + snd m - 1
     in if isInsideComment text startPos then []
        else (case extractTemplateContent text (startPos + 1) of
                None \<Rightarrow> []
              | Some templateContent \<Rightarrow>
                  validateHTML tagPatterns text templateContent (startPos + 1)))"

definition updateDiagnostics :: "string list \<Rightarrow> string \<Rightarrow> diagnostic list" where
  "updateDiagnostics tagPatterns text =
     concat (map (diagnosticsOfMatch tagPatterns text) (leaderScan DiagLeader tagPatterns text 0))"

section \<open>foldingProvider.ts: provideFoldingRanges\<close>

definition lineAt :: "string \<Rightarrow> nat \<Rightarrow> nat" where
  \<comment> \<open>\<open>document.positionAt(offset).line\<close>: the number of line feeds before the offset\<close>
  "lineAt text offset = length (filter (\<lambda>c. c = newline) (take offset text))"

text \<open>
  One iteration of the match loop, for a request that is not cancelled: the state is the
  set \<open>processedPositions\<close> and the array \<open>foldingRanges\<close> of (start line, end line).
\<close>

definition fold_step ::
  "string \<Rightarrow> nat \<times> nat \<Rightarrow> nat set \<times> (nat \<times> nat) list \<Rightarrow> nat set \<times> (nat \<times> nat) list" where
  "fold_step text m st =
    (let processedPositions = fst st;
         foldingRanges = snd st;
         startPos = fst m + snd m
     in if startPos \<in> processedPositions then st
        else
          (let processed1 = insert startPos processedPositions;
               tagStartPos = fst m;
               startLine = lineAt text tagStartPos;
               endPos = findClosingBacktick text startPos
           in if endPos = - 1 then (processed1, foldingRanges)
              else
                (let endLine = lineAt text (nat endPos)
                 in if int endLine - int startLine \<ge> 2
                    then (processed1, foldingRanges @ [(startLine, endLine)])
                    else (processed1, foldingRanges))))"

definition foldingCandidates :: "string list \<Rightarrow> string \<Rightarrow> (nat \<times> nat) list" where
  \<comment> \<open>\<open>foldingRanges\<close> when the match loop has ended\<close>
  "foldingCandidates tagPatterns text =
     snd (foldl (\<lambda>st m. fold_step text m st) ({}, [])
            (leaderScan FoldLeader tagPatterns text 0))"

definition rangeContains :: "nat \<times> nat \<Rightarrow> nat \<times> nat \<Rightarrow> bool" where
  \<comment> \<open>\<open>otherRange\<close> contains \<open>range\<close> and differs from it\<close>
  "rangeContains otherRange thisRange =
     (fst otherRange \<le> fst thisRange \<and> snd otherRange \<ge> snd thisRange
      \<and> (fst otherRange < fst thisRange \<or> snd otherRange > snd thisRange))"

definition filterOutermost :: "(nat \<times> nat) list \<Rightarrow> (nat \<times> nat) list" where
  "filterOutermost foldingRanges =
     map snd
       (filter (\<lambda>(index, thisRange).
                  \<not> (\<exists>(otherIndex, otherRange) \<in> set (enumerate 0 foldingRanges).
                        index \<noteq> otherIndex \<and> rangeContains otherRange thisRange))
          (enumerate 0 foldingRanges))"

definition provideFoldingRanges :: "string list \<Rightarrow> string \<Rightarrow> (nat \<times> nat) list" where
  "provideFoldingRanges tagPatterns text = filterOutermost (foldingCandidates tagPatterns text)"

section \<open>Well-formed HTML text\<close>





section \<open>Balanced tag sequences\<close>



section \<open>Consistent scanner states\<close>

text \<open>
  What holds of every state that content extraction and the closing-backtick search
  reach: inside a string the delimiter that opened it is known; content extraction is
  never in a string and in a nested literal at once, and is in neither at depth zero.
\<close>

definition etc_consistent :: "etc_state \<Rightarrow> bool" where
  "etc_consistent s =
     (0 \<le> etc_depth s
      \<and> (etc_inString s \<longrightarrow> etc_stringChar s \<noteq> None \<and> \<not> etc_inNestedTemplate s \<and> 0 < etc_depth s)
      \<and> (etc_inNestedTemplate s \<longrightarrow> 0 < etc_depth s))"

definition fcb_consistent :: "fcb_state \<Rightarrow> bool" where
  "fcb_consistent s = (fcb_inString s \<longrightarrow> fcb_stringChar s \<noteq> None)"

section \<open>Verified properties\<close>

subsection \<open>findClosingBacktick: result and reads stay inside the text\<close>

lemma fcb_body_Done:
  "fcb_body text s = Done r \<Longrightarrow> fcb_i s < length text \<Longrightarrow>
     r = int (fcb_i s) \<and> text ! fcb_i s = backtick"
  by (auto simp: fcb_body_def Let_def charAt_def split: if_splits)

lemma fcb_loop_result:
  "fcb_loop text s = - 1 \<or>
   (\<exists>i. fcb_loop text s = int i \<and> fcb_i s \<le> i \<and> i < length text \<and> text ! i = backtick)"
proof (induction "text" s rule: fcb_loop.induct)
  case (1 t s)
  have eq: "fcb_loop t s =
    (if fcb_i s < length t \<and> fcb_depth s > 0 then
       (case fcb_body t s of Done r \<Rightarrow> r | Next s' \<Rightarrow> fcb_loop t s')
     else - 1)"
    by (rule fcb_loop.simps)
  show ?case
  proof (cases "fcb_i s < length t \<and> fcb_depth s > 0")
    case False
    then show ?thesis by (simp only: eq if_False) simp
  next
    case True
    show ?thesis
    proof (cases "fcb_body t s")
      case (Done r)
      from True Done have "fcb_loop t s = r" by (simp only: eq) simp
      with True fcb_body_Done[OF Done] show ?thesis by auto
    next
      case (Next s')
      from True Next have "fcb_loop t s = fcb_loop t s'" by (simp only: eq) simp
      with "1.IH"[OF True Next] fcb_body_advances[OF Next] show ?thesis
        by auto
    qed
  qed
qed

lemma fcb_reads_in_range:
  "fcb_i s < length text \<Longrightarrow> j \<in> set (fcb_reads text s) \<Longrightarrow> j < length text"
  by (auto simp: fcb_reads_def Let_def split: if_splits)

text \<open>
  C10. \<open>findClosingBacktick\<close> is a total function (its loop terminates on every text and
  every starting position, an offset counted from zero as at its call site). Its result is
  either \<open>-1\<close> or an index \<open>i\<close> with
  \<open>startPos \<le> i < text.length\<close> at which the text has a backtick, and every index it
  reads while scanning lies inside the text.
\<close>

theorem findClosingBacktick_total_in_range:
  "(findClosingBacktick text startPos = - 1 \<or>
    (\<exists>i. findClosingBacktick text startPos = int i \<and> startPos \<le> i \<and> i < length text
          \<and> text ! i = backtick))
   \<and> (\<forall>j \<in> set (fcb_all_reads text startPos). j < length text)"
proof
  show "findClosingBacktick text startPos = - 1 \<or>
    (\<exists>i. findClosingBacktick text startPos = int i \<and> startPos \<le> i \<and> i < length text
          \<and> text ! i = backtick)"
  proof -
    have "fcb_i (fcb_init startPos) = startPos" by (simp add: fcb_init_def)
    with fcb_loop_result[of "text" "fcb_init startPos"] show ?thesis
      unfolding findClosingBacktick_def by simp
  qed
  show "\<forall>j \<in> set (fcb_all_reads text startPos). j < length text"
    by (auto simp: fcb_all_reads_def dest: fcb_reads_in_range)
qed

theorem findClosingBacktick_total_in_range_witness:
  "findClosingBacktick ''a${b}c`d'' 0 = 6
   \<and> 2 \<in> set (fcb_all_reads ''a${b}c`d'' 0) \<and> (2::nat) < length ''a${b}c`d''"
proof -
  have r: "findClosingBacktick ''a${b}c`d'' 0 = 6" by code_simp
  have m: "2 \<in> set (fcb_all_reads ''a${b}c`d'' 0)" by code_simp
  from findClosingBacktick_total_in_range[of "''a${b}c`d''" 0] m
  have "(2::nat) < length ''a${b}c`d''" by blast
  with r m show ?thesis by blast
qed

subsection \<open>The depth counters never go negative\<close>

lemma iic_body_depth: "0 \<le> iic_templateDepth s \<Longrightarrow> 0 \<le> iic_templateDepth (iic_body b s)"
  by (simp add: iic_body_def Let_def)

lemma iic_states_depth:
  "0 \<le> iic_templateDepth s \<Longrightarrow> s' \<in> set (iic_states b s) \<Longrightarrow> 0 \<le> iic_templateDepth s'"
proof (induction b s rule: iic_states.induct)
  case (1 b s)
  have eq: "iic_states b s =
    s # (if iic_i s < length b then iic_states b (iic_body b s) else [])"
    by (rule iic_states.simps)
  show ?case
  proof (cases "iic_i s < length b")
    case False
    with "1.prems" show ?thesis by (simp add: eq)
  next
    case True
    from "1.prems"(2) True have "s' = s \<or> s' \<in> set (iic_states b (iic_body b s))"
      by (simp add: eq)
    then show ?thesis
    proof
      assume "s' = s"
      with "1.prems"(1) show ?thesis by simp
    next
      assume "s' \<in> set (iic_states b (iic_body b s))"
      with "1.IH"[OF True iic_body_depth[OF "1.prems"(1)]] show ?thesis by simp
    qed
  qed
qed

lemma etc_body_depth_case:
  "(case etc_body t p s of Next s' \<Rightarrow> 0 \<le> etc_depth s \<longrightarrow> 0 \<le> etc_depth s' | Done r \<Rightarrow> True)"
  by (simp add: etc_body_def Let_def)

lemma etc_states_depth:
  "0 \<le> etc_depth s \<Longrightarrow> s' \<in> set (etc_states t p s) \<Longrightarrow> 0 \<le> etc_depth s'"
proof (induction t p s rule: etc_states.induct)
  case (1 t p s)
  have eq: "etc_states t p s =
    s # (if etc_i s < length t then
           (case etc_body t p s of Done r \<Rightarrow> [] | Next s1 \<Rightarrow> etc_states t p s1)
         else [])"
    by (rule etc_states.simps)
  show ?case
  proof (cases "s' = s")
    case True
    with "1.prems"(1) show ?thesis by simp
  next
    case False
    have lt: "etc_i s < length t"
    proof (rule ccontr)
      assume "\<not> (etc_i s < length t)"
      with "1.prems"(2) False show False by (simp add: eq)
    qed
    with "1.prems"(2) False
    have m: "s' \<in> set (case etc_body t p s of Done r \<Rightarrow> [] | Next s1 \<Rightarrow> etc_states t p s1)"
      by (simp add: eq)
    show ?thesis
    proof (cases "etc_body t p s")
      case (Done r)
      with m show ?thesis by simp
    next
      case (Next s1)
      with m have m1: "s' \<in> set (etc_states t p s1)" by simp
      from Next etc_body_depth_case[where t = t and s = s and p = p] "1.prems"(1)
      have "0 \<le> etc_depth s1" by simp
      from "1.IH"[OF lt Next this m1] show ?thesis .
    qed
  qed
qed

lemma fcb_body_depth_case:
  "(case fcb_body t s of Next s' \<Rightarrow> 1 \<le> fcb_depth s \<longrightarrow> 1 \<le> fcb_depth s' | Done r \<Rightarrow> True)"
  by (simp add: fcb_body_def Let_def)

lemma fcb_states_depth:
  "1 \<le> fcb_depth s \<Longrightarrow> s' \<in> set (fcb_states t s) \<Longrightarrow> 1 \<le> fcb_depth s'"
proof (induction t s rule: fcb_states.induct)
  case (1 t s)
  have eq: "fcb_states t s =
    s # (if fcb_i s < length t \<and> fcb_depth s > 0 then
           (case fcb_body t s of Done r \<Rightarrow> [] | Next s1 \<Rightarrow> fcb_states t s1)
         else [])"
    by (rule fcb_states.simps)
  show ?case
  proof (cases "s' = s")
    case True
    with "1.prems"(1) show ?thesis by simp
  next
    case False
    have lt: "fcb_i s < length t \<and> fcb_depth s > 0"
    proof (rule ccontr)
      assume "\<not> (fcb_i s < length t \<and> fcb_depth s > 0)"
      with "1.prems"(2) False show False by (simp add: eq)
    qed
    with "1.prems"(2) False
    have m: "s' \<in> set (case fcb_body t s of Done r \<Rightarrow> [] | Next s1 \<Rightarrow> fcb_states t s1)"
      by (simp add: eq)
    show ?thesis
    proof (cases "fcb_body t s")
      case (Done r)
      with m show ?thesis by simp
    next
      case (Next s1)
      with m have m1: "s' \<in> set (fcb_states t s1)" by simp
      from Next fcb_body_depth_case[where t = t and s = s] "1.prems"(1)
      have "1 \<le> fcb_depth s1" by simp
      from "1.IH"[OF lt Next this m1] show ?thesis .
    qed
  qed
qed

lemma rip_states_depth:
  "1 \<le> rip_depth s \<Longrightarrow> s' \<in> set (rip_states t s) \<Longrightarrow> 0 \<le> rip_depth s'"
proof (induction t s rule: rip_states.induct)
  case (1 t s)
  have eq: "rip_states t s =
    s # (if rip_i s < length t \<and> rip_depth s > 0 then
           (case rip_body t s of Done s1 \<Rightarrow> [s1] | Next s1 \<Rightarrow> rip_states t s1)
         else [])"
    by (rule rip_states.simps)
  show ?case
  proof (cases "s' = s")
    case True
    with "1.prems"(1) show ?thesis by simp
  next
    case False
    with "1.prems"(2) have lt: "rip_i s < length t \<and> rip_depth s > 0"
      and m: "s' \<in> set (case rip_body t s of Done s1 \<Rightarrow> [s1] | Next s1 \<Rightarrow> rip_states t s1)"
      by (auto simp: eq split: if_splits)
    show ?thesis
    proof (cases "rip_body t s")
      case (Done s1)
      with m have "s' = s1" by simp
      with Done rip_body_case[where t = t and s = s] "1.prems"(1) show ?thesis by simp
    next
      case (Next s1)
      with m have m1: "s' \<in> set (rip_states t s1)" by simp
      from Next rip_body_case[where t = t and s = s] "1.prems"(1)
      have "1 \<le> rip_depth s1" by simp
      from "1.IH"[OF lt Next this m1] show ?thesis .
    qed
  qed
qed


lemma iic_brace_at_zero:
  "charAt b (iic_i s) = Some (CHR ''}'') \<Longrightarrow> iic_templateDepth s = 0
     \<Longrightarrow> iic_templateDepth (iic_body b s) = 0"
  by (simp add: iic_body_def Let_def)

lemma etc_brace_at_zero:
  "charAt t (etc_i s) = Some (CHR ''}'') \<Longrightarrow> etc_depth s = 0
     \<Longrightarrow> \<exists>s'. etc_body t p s = Next s' \<and> etc_depth s' = 0"
  by (simp add: etc_body_def Let_def)

lemma fcb_brace_at_base:
  "charAt t (fcb_i s) = Some (CHR ''}'') \<Longrightarrow> fcb_depth s \<le> 1
     \<Longrightarrow> \<exists>s'. fcb_body t s = Next s' \<and> fcb_depth s' = fcb_depth s"
  by (cases "fcb_i s") (simp_all add: fcb_body_def Let_def)

lemma rip_outer_brace:
  "charAt t i = Some (CHR ''}'') \<Longrightarrow> rip_outer t i = rip_outer t (i + 1)"
proof -
  assume a: "charAt t i = Some (CHR ''}'')"
  then have "i < length t" by (simp add: charAt_def split: if_splits)
  with a show ?thesis by (subst rip_outer.simps) simp
qed

text \<open>
  C7. In each of the four scanning loops (comment-membership query, content extraction,
  closing-backtick search, and the brace search of the interpolation substitution) the
  depth counter is at least zero in every state the loop goes through, whatever the text
  and the starting position. A close-brace met with no interpolation open changes no
  depth and the scan goes on: in the comment query and in content extraction the counter
  stays at zero, in the closing-backtick search (whose counter starts at one) it stays at
  its base value, and the substitution's outer loop steps over the brace. The scanners
  have no error result.
\<close>

theorem interpolationDepth_never_negative:
  "(\<forall>s \<in> set (iic_states (substring src 0 position) iic_init). 0 \<le> iic_templateDepth s)
   \<and> (\<forall>s \<in> set (etc_states src startPos (etc_init startPos)). 0 \<le> etc_depth s)
   \<and> (\<forall>s \<in> set (fcb_states src (fcb_init startPos)). 0 \<le> fcb_depth s)
   \<and> (\<forall>s \<in> set (rip_states src (rip_init startPos)). 0 \<le> rip_depth s)
   \<and> (charAt src (iic_i a) = Some (CHR ''}'') \<and> iic_templateDepth a = 0
        \<longrightarrow> iic_templateDepth (iic_body src a) = 0)
   \<and> (charAt src (etc_i b) = Some (CHR ''}'') \<and> etc_depth b = 0
        \<longrightarrow> (\<exists>s'. etc_body src startPos b = Next s' \<and> etc_depth s' = 0))
   \<and> (charAt src (fcb_i c) = Some (CHR ''}'') \<and> fcb_depth c \<le> 1
        \<longrightarrow> (\<exists>s'. fcb_body src c = Next s' \<and> fcb_depth s' = fcb_depth c))
   \<and> (charAt src i = Some (CHR ''}'') \<longrightarrow> rip_outer src i = rip_outer src (i + 1))"
proof (intro conjI ballI impI)
  fix s assume "s \<in> set (iic_states (substring src 0 position) iic_init)"
  then show "0 \<le> iic_templateDepth s"
    by (rule iic_states_depth[rotated]) (simp add: iic_init_def)
next
  fix s assume "s \<in> set (etc_states src startPos (etc_init startPos))"
  then show "0 \<le> etc_depth s"
    by (rule etc_states_depth[rotated]) (simp add: etc_init_def)
next
  fix s assume "s \<in> set (fcb_states src (fcb_init startPos))"
  then have "1 \<le> fcb_depth s"
    by (rule fcb_states_depth[rotated]) (simp add: fcb_init_def)
  then show "0 \<le> fcb_depth s" by simp
next
  fix s assume "s \<in> set (rip_states src (rip_init startPos))"
  then show "0 \<le> rip_depth s"
    by (rule rip_states_depth[rotated]) (simp add: rip_init_def)
next
  assume "charAt src (iic_i a) = Some (CHR ''}'') \<and> iic_templateDepth a = 0"
  then show "iic_templateDepth (iic_body src a) = 0" by (simp add: iic_brace_at_zero)
next
  assume "charAt src (etc_i b) = Some (CHR ''}'') \<and> etc_depth b = 0"
  then show "\<exists>s'. etc_body src startPos b = Next s' \<and> etc_depth s' = 0"
    by (simp add: etc_brace_at_zero)
next
  assume "charAt src (fcb_i c) = Some (CHR ''}'') \<and> fcb_depth c \<le> 1"
  then show "\<exists>s'. fcb_body src c = Next s' \<and> fcb_depth s' = fcb_depth c"
    by (simp add: fcb_brace_at_base)
next
  assume "charAt src i = Some (CHR ''}'')"
  then show "rip_outer src i = rip_outer src (i + 1)" by (rule rip_outer_brace)
qed

theorem interpolationDepth_never_negative_witness:
  "\<lparr>etc_depth = 0, etc_i = 5, etc_inString = False, etc_inNestedTemplate = False,
      etc_stringChar = None\<rparr> \<in> set (etc_states ''${a}}`'' 0 (etc_init 0))
   \<and> \<lparr>fcb_depth = 1, fcb_i = 5, fcb_inString = False, fcb_stringChar = None\<rparr>
        \<in> set (fcb_states ''${a}}`'' (fcb_init 0))
   \<and> (\<exists>s'. etc_body ''${a}}`'' 0 \<lparr>etc_depth = 0, etc_i = 4, etc_inString = False,
               etc_inNestedTemplate = False, etc_stringChar = None\<rparr> = Next s'
             \<and> etc_depth s' = 0)
   \<and> (\<exists>s'. fcb_body ''${a}}`'' \<lparr>fcb_depth = 1, fcb_i = 4, fcb_inString = False,
               fcb_stringChar = None\<rparr> = Next s' \<and> fcb_depth s' = 1)
   \<and> rip_outer ''${a}}`'' 4 = rip_outer ''${a}}`'' 5
   \<and> extractTemplateContent ''${a}}`'' 0 = Some ''${a}}''
   \<and> findClosingBacktick ''${a}}`'' 0 = 5"
proof -
  let ?T = "''${a}}`''"
  let ?e = "\<lparr>etc_depth = 0, etc_i = 4, etc_inString = False, etc_inNestedTemplate = False,
      etc_stringChar = None\<rparr>"
  let ?f = "\<lparr>fcb_depth = 1, fcb_i = 4, fcb_inString = False, fcb_stringChar = None\<rparr>"
  note th = interpolationDepth_never_negative[where src = ?T and startPos = 0 and position = 0
      and b = ?e and c = ?f and i = 4 and a = iic_init]
  have c: "charAt ?T 4 = Some (CHR ''}'')" by (simp add: charAt_def)
  have m1: "\<lparr>etc_depth = 0, etc_i = 5, etc_inString = False, etc_inNestedTemplate = False,
      etc_stringChar = None\<rparr> \<in> set (etc_states ?T 0 (etc_init 0))" by code_simp
  have m2: "\<lparr>fcb_depth = 1, fcb_i = 5, fcb_inString = False, fcb_stringChar = None\<rparr>
        \<in> set (fcb_states ?T (fcb_init 0))" by code_simp
  from th c have e: "\<exists>s'. etc_body ?T 0 ?e = Next s' \<and> etc_depth s' = 0" by simp
  from th c have f: "\<exists>s'. fcb_body ?T ?f = Next s' \<and> fcb_depth s' = 1" by simp
  from th c have r: "rip_outer ?T 4 = rip_outer ?T 5" by simp
  have x: "extractTemplateContent ?T 0 = Some ''${a}}''" by code_simp
  have y: "findClosingBacktick ?T 0 = 5" by code_simp
  from m1 m2 e f r x y show ?thesis by blast
qed

subsection \<open>Content extraction against the closing-backtick search\<close>

text \<open>
  C1. Extracting a literal's content and locating its closing backtick again should give
  the same span. On the document \<open>html`${html`x`}`\<close> they do not: content extraction
  returns \<open>${html`x`}\<close>, the text up to the backtick at offset 15, while
  \<open>findClosingBacktick\<close> from the same start stops at offset 13, the closing backtick of
  the nested literal. With an escaped backtick in the content, \<open>html`a\`b`\<close>, extraction
  ends at the escaped backtick (content \<open>a\\<close>) and \<open>findClosingBacktick\<close> at the last
  one (offset 9).
\<close>

theorem roundtrip_nested_literal_diverges:
  "extractTemplateContent ''html`${html`x`}`'' 5 = Some ''${html`x`}''
   \<and> substring ''html`${html`x`}`'' 5 15 = ''${html`x`}''
   \<and> findClosingBacktick ''html`${html`x`}`'' 5 = 13
   \<and> substring ''html`${html`x`}`'' 5 13 = ''${html`x''
   \<and> extractTemplateContent (''html`a'' @ [backslash] @ ''`b`'') 5 = Some (''a'' @ [backslash])
   \<and> findClosingBacktick (''html`a'' @ [backslash] @ ''`b`'') 5 = 9"
  by code_simp

subsection \<open>Leader matches inside block comments\<close>

text \<open>
  C3. A leader match inside a block comment should start no literal in any component.
  The document below is one block comment holding \<open>html`\<close>, an unclosed \<open><p>\<close> and the
  closing backtick, on six lines. The leader match at offset 3 and its backtick at
  offset 7 are inside the comment; \<open>updateDiagnostics\<close> skips the match and reports
  nothing, but \<open>provideFoldingRanges\<close>, which never asks \<open>isInsideComment\<close>, returns the
  fold range from line 1 to line 4.
\<close>

theorem commented_literal_still_folds:
  "isInsideComment (''/*'' @ [newline] @ ''html`'' @ [newline] @ ''<p>'' @ [newline, newline]
      @ ''`'' @ [newline] @ ''*/'') 3
   \<and> isInsideComment (''/*'' @ [newline] @ ''html`'' @ [newline] @ ''<p>'' @ [newline, newline]
      @ ''`'' @ [newline] @ ''*/'') 7
   \<and> leaderScan FoldLeader [''html'', ''dom''] (''/*'' @ [newline] @ ''html`'' @ [newline] @ ''<p>''
      @ [newline, newline] @ ''`'' @ [newline] @ ''*/'') 0 = [(3, 5)]
   \<and> updateDiagnostics [''html'', ''dom''] (''/*'' @ [newline] @ ''html`'' @ [newline] @ ''<p>''
      @ [newline, newline] @ ''`'' @ [newline] @ ''*/'') = []
   \<and> provideFoldingRanges [''html'', ''dom''] (''/*'' @ [newline] @ ''html`'' @ [newline] @ ''<p>''
      @ [newline, newline] @ ''`'' @ [newline] @ ''*/'') = [(1, 4)]"
  by code_simp

subsection \<open>The range of an unmatched closing tag\<close>

text \<open>
  C5. A closing tag met with an empty stack should give one error whose range is the
  tag's span in the document. In \<open>html`${x}</div>`\<close> the tag \<open></div>\<close> spans the
  offsets 9 to 15. \<open>validateHTML\<close> reports exactly one error for it, but computes the
  range from the tag's index in the cleaned text \<open>placeholder</div>\<close>, where the
  interpolation has become the longer word \<open>placeholder\<close>: the range is 16 to 22, behind
  the end of the document.
\<close>

theorem unmatched_closing_tag_range_shifted:
  "extractTemplateContent ''html`${x}</div>`'' 5 = Some ''${x}</div>''
   \<and> substring ''html`${x}</div>`'' 9 15 = ''</div>''
   \<and> validateHTML [''html'', ''dom''] ''html`${x}</div>`'' ''${x}</div>'' 5 =
        [\<lparr>range_start = 16, range_end = 22, message = ''Unmatched closing tag </div>'',
          severity = Error\<rparr>]
   \<and> updateDiagnostics [''html'', ''dom''] ''html`${x}</div>`'' =
        [\<lparr>range_start = 16, range_end = 22, message = ''Unmatched closing tag </div>'',
          severity = Error\<rparr>]"
  by code_simp

subsection \<open>Letter case in tag matching\<close>

text \<open>
  C8, as stated: tag names are compared with their letter case everywhere, also when a
  name is looked up in the set of void elements. The lookup is not case-sensitive:
  \<open>isSelfClosingTag\<close> lower-cases the name first, so \<open>BR\<close>, which is not in the list, counts
  as a void element and \<open><BR>\<close> leaves no tag on the stack.
\<close>

theorem void_membership_ignores_case:
  "isSelfClosingTag ''BR'' \<and> ''BR'' \<notin> set selfClosingTags
   \<and> tagBalance 0 ''<BR>'' = [] \<and> tagBalance 0 ''<br>'' = []"
  by code_simp

lemma tag_step_closing:
  "stack \<noteq> [] \<Longrightarrow> startsWith ''</'' (tm_fullMatch m) \<Longrightarrow>
     (snd (tag_step offset m (stack, ds)) = ds) = (fst (last stack) = tm_tagName m)"
  by (simp add: tag_step_def Let_def)

lemma tag_step_void:
  "\<not> startsWith ''</'' (tm_fullMatch m)
     \<Longrightarrow> endsWith ''/>'' (tm_fullMatch m) \<or> isSelfClosingTag (tm_tagName m)
     \<Longrightarrow> tag_step offset m st = st"
  by (auto simp: tag_step_def Let_def)

lemma tag_step_push:
  "\<not> startsWith ''</'' (tm_fullMatch m) \<Longrightarrow> \<not> endsWith ''/>'' (tm_fullMatch m)
     \<Longrightarrow> \<not> isSelfClosingTag (tm_tagName m)
     \<Longrightarrow> tag_step offset m (stack, ds) = (stack @ [(tm_tagName m, offset + tm_index m)], ds)"
  by (simp add: tag_step_def Let_def)


text \<open>
  C8, amended. A closing tag met with a non-empty stack passes without a diagnostic
  exactly when its name equals the name on top of the stack, letter case included.
  Membership in the set of void elements is decided on the lower-cased name: a name is
  void exactly when its lower-case form is one of the fourteen names of the fixed set, so
  \<open>BR\<close> and \<open>Img\<close> are void. An opening tag whose lower-cased name is in the set leaves
  the stack as it is; one whose lower-cased name is not in the set, and which does not
  end in \<open>/>\<close>, is pushed with its name as written.
\<close>

theorem closing_match_exact_void_lowercased:
  "(stack \<noteq> [] \<and> startsWith ''</'' (tm_fullMatch m) \<longrightarrow>
      (snd (tag_step offset m (stack, ds)) = ds) = (fst (last stack) = tm_tagName m))
   \<and> isSelfClosingTag n =
       (toLowerCase n \<in> {''area'', ''base'', ''br'', ''col'', ''embed'', ''hr'', ''img'',
          ''input'', ''link'', ''meta'', ''param'', ''source'', ''track'', ''wbr''})
   \<and> (\<not> startsWith ''</'' (tm_fullMatch m)
        \<and> toLowerCase (tm_tagName m) \<in> {''area'', ''base'', ''br'', ''col'', ''embed'', ''hr'',
             ''img'', ''input'', ''link'', ''meta'', ''param'', ''source'', ''track'', ''wbr''}
      \<longrightarrow> tag_step offset m (stack, ds) = (stack, ds))
   \<and> (\<not> startsWith ''</'' (tm_fullMatch m) \<and> \<not> endsWith ''/>'' (tm_fullMatch m)
        \<and> toLowerCase (tm_tagName m) \<notin> {''area'', ''base'', ''br'', ''col'', ''embed'', ''hr'',
             ''img'', ''input'', ''link'', ''meta'', ''param'', ''source'', ''track'', ''wbr''}
      \<longrightarrow> tag_step offset m (stack, ds) = (stack @ [(tm_tagName m, offset + tm_index m)], ds))"
proof -
  have v: "\<And>x. isSelfClosingTag x =
       (toLowerCase x \<in> {''area'', ''base'', ''br'', ''col'', ''embed'', ''hr'', ''img'',
          ''input'', ''link'', ''meta'', ''param'', ''source'', ''track'', ''wbr''})"
    by (simp add: isSelfClosingTag_def selfClosingTags_def)
  show ?thesis
    unfolding v[symmetric]
    using tag_step_closing[of stack m offset ds] tag_step_void[of m offset "(stack, ds)"]
      tag_step_push[of m offset stack ds]
    by blast
qed

theorem closing_match_exact_void_lowercased_witness:
  "snd (tag_step 0 \<lparr>tm_fullMatch = ''</DIV>'', tm_tagName = ''DIV'', tm_index = 5\<rparr>
          ([(''div'', 0)], [])) \<noteq> []
   \<and> isSelfClosingTag ''BR'' \<and> isSelfClosingTag ''Img'' \<and> \<not> isSelfClosingTag ''div''
   \<and> tag_step 0 \<lparr>tm_fullMatch = ''<Img src=x>'', tm_tagName = ''Img'', tm_index = 0\<rparr>
        ([(''p'', 7)], []) = ([(''p'', 7)], [])
   \<and> tag_step 3 \<lparr>tm_fullMatch = ''<Div>'', tm_tagName = ''Div'', tm_index = 4\<rparr>
        ([(''p'', 0)], []) = ([(''p'', 0), (''Div'', 7)], [])"
proof -
  let ?m = "\<lparr>tm_fullMatch = ''</DIV>'', tm_tagName = ''DIV'', tm_index = 5\<rparr>"
  let ?i = "\<lparr>tm_fullMatch = ''<Img src=x>'', tm_tagName = ''Img'', tm_index = 0\<rparr>"
  let ?d = "\<lparr>tm_fullMatch = ''<Div>'', tm_tagName = ''Div'', tm_index = 4\<rparr>"
  have s: "startsWith ''</'' (tm_fullMatch ?m)" by (simp add: startsWith_def)
  from closing_match_exact_void_lowercased[where stack = "[(''div'', 0)]" and m = ?m
      and offset = 0 and ds = "[]"] s
  have a: "snd (tag_step 0 ?m ([(''div'', 0)], [])) \<noteq> []" by simp
  have l1: "toLowerCase ''BR'' = ''br''" by code_simp
  have l2: "toLowerCase ''Img'' = ''img''" by code_simp
  have l3: "toLowerCase ''div'' = ''div''" by code_simp
  have l4: "toLowerCase ''Div'' = ''div''" by code_simp
  from closing_match_exact_void_lowercased[where n = "''BR''"] l1
  have b1: "isSelfClosingTag ''BR''" by simp
  from closing_match_exact_void_lowercased[where n = "''Img''"] l2
  have b2: "isSelfClosingTag ''Img''" by simp
  from closing_match_exact_void_lowercased[where n = "''div''"] l3
  have b3: "\<not> isSelfClosingTag ''div''" by simp
  have i1: "\<not> startsWith ''</'' (tm_fullMatch ?i)" by (simp add: startsWith_def)
  from closing_match_exact_void_lowercased[where m = ?i and offset = 0
      and stack = "[(''p'', 7)]" and ds = "[]"] i1 l2
  have c: "tag_step 0 ?i ([(''p'', 7)], []) = ([(''p'', 7)], [])" by simp
  have d1: "\<not> startsWith ''</'' (tm_fullMatch ?d)" by (simp add: startsWith_def)
  have d2: "\<not> endsWith ''/>'' (tm_fullMatch ?d)" by (simp add: endsWith_def)
  from closing_match_exact_void_lowercased[where m = ?d and offset = 3
      and stack = "[(''p'', 0)]" and ds = "[]"] d1 d2 l4
  have d: "tag_step 3 ?d ([(''p'', 0)], []) = ([(''p'', 0), (''Div'', 7)], [])" by simp
  from a b1 b2 b3 c d show ?thesis by blast
qed

subsection \<open>Escaped characters\<close>

text \<open>
  C4, as stated: in every scanner a character is consumed as escaped only after an
  un-escaped backslash and only in a string or nested-literal context, so that after two
  consecutive backslashes the next character is a delimiter. The closing-backtick search
  asks for no context: in \<open>\`x`\<close>, scanned from the start, the backtick at offset 1 is
  outside every string and still skipped, and the search returns 3. After two
  backslashes the next character is skipped as well: the search finds no closing backtick
  in \<open>\\`\<close>, and content extraction never leaves the string in \<open>${"\\"}`\<close> and returns
  nothing.
\<close>

theorem escape_rule_counterexamples:
  "fcb_body ([backslash] @ ''`x`'') (fcb_init 1) = Next (fcb_init 2)
   \<and> findClosingBacktick ([backslash] @ ''`x`'') 0 = 3
   \<and> findClosingBacktick ([backslash, backslash] @ ''`'') 0 = - 1
   \<and> extractTemplateContent (''${'' @ [dquote, backslash, backslash, dquote] @ ''}`'') 0 = None"
  by code_simp

lemma iic_escape:
  "charAt b (iic_i s) = Some backslash \<Longrightarrow> iic_inString s \<or> iic_inTemplateString s
     \<Longrightarrow> iic_body b s = s\<lparr>iic_i := iic_i s + 2\<rparr>"
  by (simp add: iic_body_def Let_def)

lemma iic_no_escape_closes:
  "charAt b (iic_i s) = Some q \<Longrightarrow> q \<noteq> backslash \<Longrightarrow> iic_inString s
     \<Longrightarrow> iic_stringChar s = Some q \<Longrightarrow> \<not> iic_inComment s \<Longrightarrow> \<not> iic_inTemplateString s
     \<Longrightarrow> iic_body b s = s\<lparr>iic_inString := False, iic_i := iic_i s + 1\<rparr>"
  by (simp add: iic_body_def Let_def)

lemma iic_two_backslashes:
  assumes "charAt b (iic_i s) = Some backslash" "charAt b (iic_i s + 2) = Some q"
    "q \<noteq> backslash" "iic_inString s" "iic_stringChar s = Some q" "\<not> iic_inComment s"
    "\<not> iic_inTemplateString s"
  shows "iic_body b (iic_body b s) = s\<lparr>iic_inString := False, iic_i := iic_i s + 3\<rparr>"
proof -
  from assms have 1: "iic_body b s = s\<lparr>iic_i := iic_i s + 2\<rparr>" by (simp add: iic_escape)
  have "iic_body b (s\<lparr>iic_i := iic_i s + 2\<rparr>)
      = (s\<lparr>iic_i := iic_i s + 2\<rparr>)\<lparr>iic_inString := False,
            iic_i := iic_i (s\<lparr>iic_i := iic_i s + 2\<rparr>) + 1\<rparr>"
    by (rule iic_no_escape_closes) (use assms in simp_all)
  with 1 show ?thesis by simp
qed

lemma etc_escape:
  "0 < etc_i s \<Longrightarrow> charAt t (etc_i s - 1) = Some backslash
     \<Longrightarrow> etc_inString s \<or> etc_inNestedTemplate s
     \<Longrightarrow> etc_body t p s = Next (s\<lparr>etc_i := etc_i s + 1\<rparr>)"
  by (simp add: etc_body_def Let_def)

lemma etc_no_escape_string:
  "\<not> (0 < etc_i s \<and> charAt t (etc_i s - 1) = Some backslash) \<Longrightarrow> etc_inString s
     \<Longrightarrow> \<not> etc_inNestedTemplate s \<Longrightarrow> 0 < etc_depth s
     \<Longrightarrow> charAt t (etc_i s) = etc_stringChar s
     \<Longrightarrow> etc_body t p s = Next (s\<lparr>etc_inString := False, etc_i := etc_i s + 1\<rparr>)"
  by (auto simp: etc_body_def Let_def)

lemma etc_no_escape_nested:
  "\<not> (0 < etc_i s \<and> charAt t (etc_i s - 1) = Some backslash) \<Longrightarrow> \<not> etc_inString s
     \<Longrightarrow> etc_inNestedTemplate s \<Longrightarrow> 0 < etc_depth s
     \<Longrightarrow> charAt t (etc_i s) = Some backtick
     \<Longrightarrow> etc_body t p s = Next (s\<lparr>etc_inNestedTemplate := False, etc_i := etc_i s + 1\<rparr>)"
  by (auto simp: etc_body_def Let_def)

lemma etc_outside_no_escape:
  "\<not> etc_inString s \<Longrightarrow> \<not> etc_inNestedTemplate s \<Longrightarrow> etc_depth s = 0
     \<Longrightarrow> charAt t (etc_i s) = Some backtick
     \<Longrightarrow> etc_body t p s = Done (substring t p (etc_i s))"
  by (simp add: etc_body_def Let_def)

lemma fcb_escape:
  "0 < fcb_i s \<Longrightarrow> charAt t (fcb_i s - 1) = Some backslash
     \<Longrightarrow> fcb_body t s = Next (s\<lparr>fcb_i := fcb_i s + 1\<rparr>)"
  by (simp add: fcb_body_def Let_def)

lemma fcb_no_escape:
  "\<not> (0 < fcb_i s \<and> charAt t (fcb_i s - 1) = Some backslash) \<Longrightarrow> \<not> fcb_inString s
     \<Longrightarrow> charAt t (fcb_i s) = Some backtick \<Longrightarrow> fcb_depth s = 1
     \<Longrightarrow> fcb_body t s = Done (int (fcb_i s))"
  by (auto simp: fcb_body_def Let_def)


lemma charAt_update_same: "i < length t \<Longrightarrow> charAt (t[i := c]) i = Some c"
  by (simp add: charAt_def)

lemma charAt_update_other: "j \<noteq> i \<Longrightarrow> charAt (t[i := c]) j = charAt t j"
  by (simp add: charAt_def)

lemma iic_one_step:
  "\<not> (charAt b (iic_i s) = Some backslash \<and> (iic_inString s \<or> iic_inTemplateString s))
     \<Longrightarrow> charAt b (iic_i s + 1) \<noteq> Some (CHR ''{'') \<Longrightarrow> charAt b (iic_i s + 1) \<noteq> Some (CHR ''*'')
     \<Longrightarrow> charAt b (iic_i s + 1) \<noteq> Some (CHR ''/'')
     \<Longrightarrow> iic_i (iic_body b s) = iic_i s + 1"
  by (simp add: iic_body_def Let_def)

lemma iic_skip_iff:
  "(\<forall>c. iic_body (b[iic_i s + 1 := c]) s = s\<lparr>iic_i := iic_i s + 2\<rparr>)
     = (charAt b (iic_i s) = Some backslash \<and> (iic_inString s \<or> iic_inTemplateString s))"
proof
  assume a: "\<forall>c. iic_body (b[iic_i s + 1 := c]) s = s\<lparr>iic_i := iic_i s + 2\<rparr>"
  show "charAt b (iic_i s) = Some backslash \<and> (iic_inString s \<or> iic_inTemplateString s)"
  proof (rule ccontr)
    assume n: "\<not> (charAt b (iic_i s) = Some backslash \<and> (iic_inString s \<or> iic_inTemplateString s))"
    let ?b = "b[iic_i s + 1 := CHR ''x'']"
    have c: "charAt ?b (iic_i s) = charAt b (iic_i s)" by (simp add: charAt_update_other)
    have d: "charAt ?b (iic_i s + 1) = None \<or> charAt ?b (iic_i s + 1) = Some (CHR ''x'')"
      by (simp add: charAt_def)
    have "iic_i (iic_body ?b s) = iic_i s + 1"
      by (rule iic_one_step) (use n c d in auto)
    moreover from a have "iic_body ?b s = s\<lparr>iic_i := iic_i s + 2\<rparr>" by blast
    ultimately show False by simp
  qed
next
  assume a: "charAt b (iic_i s) = Some backslash \<and> (iic_inString s \<or> iic_inTemplateString s)"
  show "\<forall>c. iic_body (b[iic_i s + 1 := c]) s = s\<lparr>iic_i := iic_i s + 2\<rparr>"
  proof
    fix c
    have "charAt (b[iic_i s + 1 := c]) (iic_i s) = charAt b (iic_i s)"
      by (simp add: charAt_update_other)
    with a show "iic_body (b[iic_i s + 1 := c]) s = s\<lparr>iic_i := iic_i s + 2\<rparr>"
      by (simp add: iic_escape)
  qed
qed

lemma etc_consistent_case:
  "(case etc_body t p s of Next s' \<Rightarrow> etc_consistent s \<longrightarrow> etc_consistent s' | Done r \<Rightarrow> True)"
  by (simp add: etc_body_def Let_def etc_consistent_def)

lemma etc_states_consistent:
  "etc_consistent s \<Longrightarrow> s' \<in> set (etc_states t p s) \<Longrightarrow> etc_consistent s'"
proof (induction t p s rule: etc_states.induct)
  case (1 t p s)
  have eq: "etc_states t p s =
    s # (if etc_i s < length t then
           (case etc_body t p s of Done r \<Rightarrow> [] | Next s1 \<Rightarrow> etc_states t p s1)
         else [])"
    by (rule etc_states.simps)
  show ?case
  proof (cases "s' = s")
    case True
    with "1.prems"(1) show ?thesis by simp
  next
    case False
    have lt: "etc_i s < length t"
    proof (rule ccontr)
      assume "\<not> (etc_i s < length t)"
      with "1.prems"(2) False show False by (simp add: eq)
    qed
    with "1.prems"(2) False
    have m: "s' \<in> set (case etc_body t p s of Done r \<Rightarrow> [] | Next s1 \<Rightarrow> etc_states t p s1)"
      by (simp add: eq)
    show ?thesis
    proof (cases "etc_body t p s")
      case (Done r)
      with m show ?thesis by simp
    next
      case (Next s1)
      with m have m1: "s' \<in> set (etc_states t p s1)" by simp
      from Next etc_consistent_case[where t = t and s = s and p = p] "1.prems"(1)
      have "etc_consistent s1" by simp
      from "1.IH"[OF lt Next this m1] show ?thesis .
    qed
  qed
qed

lemma etc_init_consistent: "etc_consistent (etc_init p)"
  by (simp add: etc_consistent_def etc_init_def)

lemma etc_open_string:
  "\<not> etc_inString s \<Longrightarrow> \<not> etc_inNestedTemplate s \<Longrightarrow> 0 < etc_depth s
     \<Longrightarrow> charAt t (etc_i s) = Some dquote
     \<Longrightarrow> etc_body t p s
         = Next (s\<lparr>etc_inString := True, etc_stringChar := Some dquote, etc_i := etc_i s + 1\<rparr>)"
  by (simp add: etc_body_def Let_def)

lemma etc_examined:
  assumes inv: "etc_consistent s" and lt: "etc_i s < length t"
    and ne: "\<not> (0 < etc_i s \<and> charAt t (etc_i s - 1) = Some backslash
                 \<and> (etc_inString s \<or> etc_inNestedTemplate s))"
  shows "\<exists>c. etc_body (t[etc_i s := c]) p s \<noteq> Next (s\<lparr>etc_i := etc_i s + 1\<rparr>)"
proof -
  have prev: "\<And>c. (0 < etc_i s \<and> charAt (t[etc_i s := c]) (etc_i s - 1) = Some backslash)
                  = (0 < etc_i s \<and> charAt t (etc_i s - 1) = Some backslash)"
    by (auto simp: charAt_update_other)
  consider (str) "etc_inString s" | (nested) "\<not> etc_inString s" "etc_inNestedTemplate s"
    | (plain) "\<not> etc_inString s" "\<not> etc_inNestedTemplate s" "0 < etc_depth s"
    | (top) "\<not> etc_inString s" "\<not> etc_inNestedTemplate s" "etc_depth s = 0"
  proof -
    from inv have "0 \<le> etc_depth s" by (simp add: etc_consistent_def)
    then have "0 < etc_depth s \<or> etc_depth s = 0" by arith
    then show ?thesis using that by blast
  qed
  then show ?thesis
  proof cases
    case str
    with inv obtain q where q: "etc_stringChar s = Some q" and nn: "\<not> etc_inNestedTemplate s"
      and d: "0 < etc_depth s"
      by (auto simp: etc_consistent_def)
    let ?t = "t[etc_i s := q]"
    have "etc_body ?t p s = Next (s\<lparr>etc_inString := False, etc_i := etc_i s + 1\<rparr>)"
      by (rule etc_no_escape_string)
         (use str nn d q ne lt prev[of q] in \<open>simp_all add: charAt_update_same\<close>)
    moreover have "s\<lparr>etc_inString := False, etc_i := etc_i s + 1\<rparr> \<noteq> s\<lparr>etc_i := etc_i s + 1\<rparr>"
    proof
      assume "s\<lparr>etc_inString := False, etc_i := etc_i s + 1\<rparr> = s\<lparr>etc_i := etc_i s + 1\<rparr>"
      then have "etc_inString (s\<lparr>etc_inString := False, etc_i := etc_i s + 1\<rparr>)
                 = etc_inString (s\<lparr>etc_i := etc_i s + 1\<rparr>)" by simp
      with str show False by simp
    qed
    ultimately have "etc_body ?t p s \<noteq> Next (s\<lparr>etc_i := etc_i s + 1\<rparr>)" by simp
    then show ?thesis by (rule exI)
  next
    case nested
    from inv nested have d: "0 < etc_depth s" by (simp add: etc_consistent_def)
    let ?t = "t[etc_i s := backtick]"
    have "etc_body ?t p s = Next (s\<lparr>etc_inNestedTemplate := False, etc_i := etc_i s + 1\<rparr>)"
      by (rule etc_no_escape_nested)
         (use nested d ne lt prev[of backtick] in \<open>simp_all add: charAt_update_same\<close>)
    moreover have "s\<lparr>etc_inNestedTemplate := False, etc_i := etc_i s + 1\<rparr>
                   \<noteq> s\<lparr>etc_i := etc_i s + 1\<rparr>"
    proof
      assume "s\<lparr>etc_inNestedTemplate := False, etc_i := etc_i s + 1\<rparr> = s\<lparr>etc_i := etc_i s + 1\<rparr>"
      then have "etc_inNestedTemplate (s\<lparr>etc_inNestedTemplate := False, etc_i := etc_i s + 1\<rparr>)
                 = etc_inNestedTemplate (s\<lparr>etc_i := etc_i s + 1\<rparr>)" by simp
      with nested show False by simp
    qed
    ultimately have "etc_body ?t p s \<noteq> Next (s\<lparr>etc_i := etc_i s + 1\<rparr>)" by simp
    then show ?thesis by (rule exI)
  next
    case plain
    let ?t = "t[etc_i s := dquote]"
    have "etc_body ?t p s
          = Next (s\<lparr>etc_inString := True, etc_stringChar := Some dquote, etc_i := etc_i s + 1\<rparr>)"
      by (rule etc_open_string) (use plain lt in \<open>simp_all add: charAt_update_same\<close>)
    moreover have "s\<lparr>etc_inString := True, etc_stringChar := Some dquote, etc_i := etc_i s + 1\<rparr>
                   \<noteq> s\<lparr>etc_i := etc_i s + 1\<rparr>"
    proof
      assume "s\<lparr>etc_inString := True, etc_stringChar := Some dquote, etc_i := etc_i s + 1\<rparr>
              = s\<lparr>etc_i := etc_i s + 1\<rparr>"
      then have "etc_inString (s\<lparr>etc_inString := True, etc_stringChar := Some dquote,
                     etc_i := etc_i s + 1\<rparr>)
                 = etc_inString (s\<lparr>etc_i := etc_i s + 1\<rparr>)" by simp
      with plain show False by simp
    qed
    ultimately have "etc_body ?t p s \<noteq> Next (s\<lparr>etc_i := etc_i s + 1\<rparr>)" by simp
    then show ?thesis by (rule exI)
  next
    case top
    let ?t = "t[etc_i s := backtick]"
    have "etc_body ?t p s = Done (substring ?t p (etc_i s))"
      by (rule etc_outside_no_escape) (use top lt in \<open>simp_all add: charAt_update_same\<close>)
    then have "etc_body ?t p s \<noteq> Next (s\<lparr>etc_i := etc_i s + 1\<rparr>)" by simp
    then show ?thesis by (rule exI)
  qed
qed

lemma fcb_consistent_case:
  "(case fcb_body t s of Next s' \<Rightarrow> fcb_consistent s \<longrightarrow> fcb_consistent s' | Done r \<Rightarrow> True)"
  by (simp add: fcb_body_def Let_def fcb_consistent_def)

lemma fcb_states_consistent:
  "fcb_consistent s \<Longrightarrow> s' \<in> set (fcb_states t s) \<Longrightarrow> fcb_consistent s'"
proof (induction t s rule: fcb_states.induct)
  case (1 t s)
  have eq: "fcb_states t s =
    s # (if fcb_i s < length t \<and> fcb_depth s > 0 then
           (case fcb_body t s of Done r \<Rightarrow> [] | Next s1 \<Rightarrow> fcb_states t s1)
         else [])"
    by (rule fcb_states.simps)
  show ?case
  proof (cases "s' = s")
    case True
    with "1.prems"(1) show ?thesis by simp
  next
    case False
    have lt: "fcb_i s < length t \<and> fcb_depth s > 0"
    proof (rule ccontr)
      assume "\<not> (fcb_i s < length t \<and> fcb_depth s > 0)"
      with "1.prems"(2) False show False by (simp add: eq)
    qed
    with "1.prems"(2) False
    have m: "s' \<in> set (case fcb_body t s of Done r \<Rightarrow> [] | Next s1 \<Rightarrow> fcb_states t s1)"
      by (simp add: eq)
    show ?thesis
    proof (cases "fcb_body t s")
      case (Done r)
      with m show ?thesis by simp
    next
      case (Next s1)
      with m have m1: "s' \<in> set (fcb_states t s1)" by simp
      from Next fcb_consistent_case[where t = t and s = s] "1.prems"(1)
      have "fcb_consistent s1" by simp
      from "1.IH"[OF lt Next this m1] show ?thesis .
    qed
  qed
qed

lemma fcb_init_consistent: "fcb_consistent (fcb_init p)"
  by (simp add: fcb_consistent_def fcb_init_def)

lemma fcb_closes_string_case:
  "\<not> (0 < fcb_i s \<and> charAt t (fcb_i s - 1) = Some backslash) \<Longrightarrow> fcb_inString s
     \<Longrightarrow> charAt t (fcb_i s) = fcb_stringChar s
     \<Longrightarrow> (case fcb_body t s of Next s' \<Rightarrow> \<not> fcb_inString s' | Done r \<Rightarrow> True)"
  by (auto simp: fcb_body_def Let_def)

lemma fcb_backtick_case:
  "\<not> (0 < fcb_i s \<and> charAt t (fcb_i s - 1) = Some backslash) \<Longrightarrow> \<not> fcb_inString s
     \<Longrightarrow> charAt t (fcb_i s) = Some backtick
     \<Longrightarrow> (case fcb_body t s of Next s' \<Rightarrow> fcb_depth s' = fcb_depth s - 1 | Done r \<Rightarrow> True)"
  by (auto simp: fcb_body_def Let_def)

lemma fcb_examined:
  assumes inv: "fcb_consistent s" and lt: "fcb_i s < length t"
    and ne: "\<not> (0 < fcb_i s \<and> charAt t (fcb_i s - 1) = Some backslash)"
  shows "\<exists>c. fcb_body (t[fcb_i s := c]) s \<noteq> Next (s\<lparr>fcb_i := fcb_i s + 1\<rparr>)"
proof (cases "fcb_inString s")
  case True
  with inv obtain q where q: "fcb_stringChar s = Some q" by (auto simp: fcb_consistent_def)
  let ?t = "t[fcb_i s := q]"
  have pr: "\<not> (0 < fcb_i s \<and> charAt ?t (fcb_i s - 1) = Some backslash)"
    using ne by (auto simp: charAt_update_other)
  have c: "charAt ?t (fcb_i s) = fcb_stringChar s" using lt q by (simp add: charAt_update_same)
  have "fcb_body ?t s \<noteq> Next (s\<lparr>fcb_i := fcb_i s + 1\<rparr>)"
  proof
    assume "fcb_body ?t s = Next (s\<lparr>fcb_i := fcb_i s + 1\<rparr>)"
    with fcb_closes_string_case[OF pr True c] True show False by simp
  qed
  then show ?thesis by (rule exI)
next
  case False
  let ?t = "t[fcb_i s := backtick]"
  have pr: "\<not> (0 < fcb_i s \<and> charAt ?t (fcb_i s - 1) = Some backslash)"
    using ne by (auto simp: charAt_update_other)
  have c: "charAt ?t (fcb_i s) = Some backtick" using lt by (simp add: charAt_update_same)
  have "fcb_body ?t s \<noteq> Next (s\<lparr>fcb_i := fcb_i s + 1\<rparr>)"
  proof
    assume "fcb_body ?t s = Next (s\<lparr>fcb_i := fcb_i s + 1\<rparr>)"
    with fcb_backtick_case[OF pr False c] show False by simp
  qed
  then show ?thesis by (rule exI)
qed

text \<open>
  C4, amended. A character is consumed as escaped when the iteration that handles it
  steps over it whatever the character is.
  \<^item> The comment-membership query steps over the character behind the current one,
    unexamined, exactly when it stands on a backslash in a string or template-literal
    context. The backslash and the character behind it are consumed together, so in a
    string, after two backslashes, the quote that follows closes the string.
  \<^item> Content extraction, at a state its scan reaches, steps over the current character
    unexamined only when the character before it is a backslash and the context is a
    string or a nested literal; and it does so whenever, in such a context, the character
    before is a backslash that is not itself preceded by a backslash.
  \<^item> The closing-backtick search, at a state its scan reaches, steps over the current
    character unexamined only when the character before it is a backslash; and it does so
    whenever the character before is a backslash that is not itself preceded by a
    backslash, in any context.
\<close>

theorem escape_rules_of_the_scanners:
  "((\<forall>c. iic_body (b[iic_i s + 1 := c]) s = s\<lparr>iic_i := iic_i s + 2\<rparr>)
      = (charAt b (iic_i s) = Some backslash \<and> (iic_inString s \<or> iic_inTemplateString s)))
   \<and> (charAt b (iic_i s) = Some backslash \<and> charAt b (iic_i s + 2) = Some q \<and> q \<noteq> backslash
        \<and> iic_inString s \<and> iic_stringChar s = Some q \<and> \<not> iic_inComment s
        \<and> \<not> iic_inTemplateString s
      \<longrightarrow> iic_body b (iic_body b s) = s\<lparr>iic_inString := False, iic_i := iic_i s + 3\<rparr>)
   \<and> (e \<in> set (etc_states t p (etc_init p)) \<and> etc_i e < length t
        \<and> (\<forall>c. etc_body (t[etc_i e := c]) p e = Next (e\<lparr>etc_i := etc_i e + 1\<rparr>))
      \<longrightarrow> 0 < etc_i e \<and> charAt t (etc_i e - 1) = Some backslash
          \<and> (etc_inString e \<or> etc_inNestedTemplate e))
   \<and> (0 < etc_i e \<and> charAt t (etc_i e - 1) = Some backslash
        \<and> \<not> (1 < etc_i e \<and> charAt t (etc_i e - 2) = Some backslash)
        \<and> (etc_inString e \<or> etc_inNestedTemplate e)
      \<longrightarrow> (\<forall>c. etc_body (t[etc_i e := c]) p e = Next (e\<lparr>etc_i := etc_i e + 1\<rparr>)))
   \<and> (f \<in> set (fcb_states t (fcb_init p)) \<and> fcb_i f < length t
        \<and> (\<forall>c. fcb_body (t[fcb_i f := c]) f = Next (f\<lparr>fcb_i := fcb_i f + 1\<rparr>))
      \<longrightarrow> 0 < fcb_i f \<and> charAt t (fcb_i f - 1) = Some backslash)
   \<and> (0 < fcb_i f \<and> charAt t (fcb_i f - 1) = Some backslash
        \<and> \<not> (1 < fcb_i f \<and> charAt t (fcb_i f - 2) = Some backslash)
      \<longrightarrow> (\<forall>c. fcb_body (t[fcb_i f := c]) f = Next (f\<lparr>fcb_i := fcb_i f + 1\<rparr>)))"
proof (intro conjI impI)
  show "(\<forall>c. iic_body (b[iic_i s + 1 := c]) s = s\<lparr>iic_i := iic_i s + 2\<rparr>)
      = (charAt b (iic_i s) = Some backslash \<and> (iic_inString s \<or> iic_inTemplateString s))"
    by (rule iic_skip_iff)
next
  assume "charAt b (iic_i s) = Some backslash \<and> charAt b (iic_i s + 2) = Some q \<and> q \<noteq> backslash
        \<and> iic_inString s \<and> iic_stringChar s = Some q \<and> \<not> iic_inComment s
        \<and> \<not> iic_inTemplateString s"
  then show "iic_body b (iic_body b s) = s\<lparr>iic_inString := False, iic_i := iic_i s + 3\<rparr>"
    by (intro iic_two_backslashes) simp_all
next
  assume a: "e \<in> set (etc_states t p (etc_init p)) \<and> etc_i e < length t
        \<and> (\<forall>c. etc_body (t[etc_i e := c]) p e = Next (e\<lparr>etc_i := etc_i e + 1\<rparr>))"
  then have inv: "etc_consistent e"
    using etc_states_consistent[OF etc_init_consistent] by blast
  have "\<not> \<not> (0 < etc_i e \<and> charAt t (etc_i e - 1) = Some backslash
          \<and> (etc_inString e \<or> etc_inNestedTemplate e))"
  proof
    assume "\<not> (0 < etc_i e \<and> charAt t (etc_i e - 1) = Some backslash
          \<and> (etc_inString e \<or> etc_inNestedTemplate e))"
    from etc_examined[where t = t and p = p, OF inv _ this] a show False by blast
  qed
  then show "0 < etc_i e" and "charAt t (etc_i e - 1) = Some backslash"
    and "etc_inString e \<or> etc_inNestedTemplate e" by blast+
next
  assume a: "0 < etc_i e \<and> charAt t (etc_i e - 1) = Some backslash
        \<and> \<not> (1 < etc_i e \<and> charAt t (etc_i e - 2) = Some backslash)
        \<and> (etc_inString e \<or> etc_inNestedTemplate e)"
  show "\<forall>c. etc_body (t[etc_i e := c]) p e = Next (e\<lparr>etc_i := etc_i e + 1\<rparr>)"
  proof
    fix c
    from a have "etc_i e - 1 \<noteq> etc_i e" by arith
    then have "charAt (t[etc_i e := c]) (etc_i e - 1) = charAt t (etc_i e - 1)"
      by (rule charAt_update_other)
    with a have "charAt (t[etc_i e := c]) (etc_i e - 1) = Some backslash" by simp
    with a show "etc_body (t[etc_i e := c]) p e = Next (e\<lparr>etc_i := etc_i e + 1\<rparr>)"
      by (intro etc_escape) simp_all
  qed
next
  assume a: "f \<in> set (fcb_states t (fcb_init p)) \<and> fcb_i f < length t
        \<and> (\<forall>c. fcb_body (t[fcb_i f := c]) f = Next (f\<lparr>fcb_i := fcb_i f + 1\<rparr>))"
  then have inv: "fcb_consistent f"
    using fcb_states_consistent[OF fcb_init_consistent] by blast
  have "\<not> \<not> (0 < fcb_i f \<and> charAt t (fcb_i f - 1) = Some backslash)"
  proof
    assume "\<not> (0 < fcb_i f \<and> charAt t (fcb_i f - 1) = Some backslash)"
    from fcb_examined[where t = t, OF inv _ this] a show False by blast
  qed
  then show "0 < fcb_i f" and "charAt t (fcb_i f - 1) = Some backslash" by blast+
next
  assume a: "0 < fcb_i f \<and> charAt t (fcb_i f - 1) = Some backslash
        \<and> \<not> (1 < fcb_i f \<and> charAt t (fcb_i f - 2) = Some backslash)"
  show "\<forall>c. fcb_body (t[fcb_i f := c]) f = Next (f\<lparr>fcb_i := fcb_i f + 1\<rparr>)"
  proof
    fix c
    from a have "fcb_i f - 1 \<noteq> fcb_i f" by arith
    then have "charAt (t[fcb_i f := c]) (fcb_i f - 1) = charAt t (fcb_i f - 1)"
      by (rule charAt_update_other)
    with a have "charAt (t[fcb_i f := c]) (fcb_i f - 1) = Some backslash" by simp
    with a show "fcb_body (t[fcb_i f := c]) f = Next (f\<lparr>fcb_i := fcb_i f + 1\<rparr>)"
      by (intro fcb_escape) simp_all
  qed
qed

theorem escape_rules_of_the_scanners_witness:
  "iic_body [dquote, backslash, dquote, dquote]
      \<lparr>iic_inComment = False, iic_inString = True, iic_inTemplateString = False,
       iic_templateDepth = 0, iic_stringChar = Some dquote, iic_i = 1\<rparr>
    = \<lparr>iic_inComment = False, iic_inString = True, iic_inTemplateString = False,
        iic_templateDepth = 0, iic_stringChar = Some dquote, iic_i = 3\<rparr>
   \<and> iic_body [dquote, backslash, backslash, dquote]
      (iic_body [dquote, backslash, backslash, dquote]
         \<lparr>iic_inComment = False, iic_inString = True, iic_inTemplateString = False,
          iic_templateDepth = 0, iic_stringChar = Some dquote, iic_i = 1\<rparr>)
    = \<lparr>iic_inComment = False, iic_inString = False, iic_inTemplateString = False,
        iic_templateDepth = 0, iic_stringChar = Some dquote, iic_i = 4\<rparr>
   \<and> etc_body (''${'' @ [dquote, backslash, dquote, dquote] @ ''}`'') 0
        \<lparr>etc_depth = 1, etc_i = 4, etc_inString = True, etc_inNestedTemplate = False,
         etc_stringChar = Some dquote\<rparr>
      = Next \<lparr>etc_depth = 1, etc_i = 5, etc_inString = True, etc_inNestedTemplate = False,
               etc_stringChar = Some dquote\<rparr>
   \<and> charAt (''${'' @ [dquote, backslash, dquote, dquote] @ ''}`'') 3 = Some backslash
   \<and> fcb_body (''a'' @ [backslash] @ ''`b`'') (fcb_init 2) = Next (fcb_init 3)
   \<and> charAt (''a'' @ [backslash] @ ''`b`'') 1 = Some backslash"
proof -
  let ?b = "[dquote, backslash, backslash, dquote]"
  let ?s = "\<lparr>iic_inComment = False, iic_inString = True, iic_inTemplateString = False,
          iic_templateDepth = 0, iic_stringChar = Some dquote, iic_i = 1\<rparr>"
  let ?t = "''${'' @ [dquote, backslash, dquote, dquote] @ ''}`''"
  let ?e = "\<lparr>etc_depth = 1, etc_i = 4, etc_inString = True, etc_inNestedTemplate = False,
         etc_stringChar = Some dquote\<rparr>"
  let ?u = "''a'' @ [backslash] @ ''`b`''"
  note c2 = escape_rules_of_the_scanners[THEN conjunct2, THEN conjunct1, rule_format]
  note c4 = escape_rules_of_the_scanners[THEN conjunct2, THEN conjunct2, THEN conjunct2,
      THEN conjunct1, rule_format]
  note c6 = escape_rules_of_the_scanners[THEN conjunct2, THEN conjunct2, THEN conjunct2,
      THEN conjunct2, THEN conjunct2, rule_format]
  have "\<forall>c. iic_body (?b[iic_i ?s + 1 := c]) ?s = ?s\<lparr>iic_i := iic_i ?s + 2\<rparr>"
    unfolding escape_rules_of_the_scanners[where b = ?b and s = ?s, THEN conjunct1]
    by (simp add: charAt_def)
  then have "iic_body (?b[iic_i ?s + 1 := dquote]) ?s = ?s\<lparr>iic_i := iic_i ?s + 2\<rparr>" by (rule spec)
  then have 1: "iic_body [dquote, backslash, dquote, dquote] ?s = ?s\<lparr>iic_i := 3\<rparr>" by simp
  have 3: "iic_body ?b (iic_body ?b ?s) = ?s\<lparr>iic_inString := False, iic_i := iic_i ?s + 3\<rparr>"
    by (rule c2[where q = dquote]) (simp add: charAt_def)
  have a4: "\<forall>c. etc_body (?t[etc_i ?e := c]) 0 ?e = Next (?e\<lparr>etc_i := etc_i ?e + 1\<rparr>)"
    by (intro allI, rule c4) (simp add: charAt_def)
  then have "etc_body (?t[etc_i ?e := dquote]) 0 ?e = Next (?e\<lparr>etc_i := etc_i ?e + 1\<rparr>)"
    by (rule spec)
  then have 4: "etc_body ?t 0 ?e = Next (?e\<lparr>etc_i := 5\<rparr>)" by simp
  have m: "?e \<in> set (etc_states ?t 0 (etc_init 0))" by code_simp
  have h5: "?e \<in> set (etc_states ?t 0 (etc_init 0)) \<and> etc_i ?e < length ?t
            \<and> (\<forall>c. etc_body (?t[etc_i ?e := c]) 0 ?e = Next (?e\<lparr>etc_i := etc_i ?e + 1\<rparr>))"
    using m a4 by simp
  have 5: "0 < etc_i ?e \<and> charAt ?t (etc_i ?e - 1) = Some backslash
           \<and> (etc_inString ?e \<or> etc_inNestedTemplate ?e)"
    by (rule escape_rules_of_the_scanners[where t = ?t and p = 0 and e = ?e, THEN conjunct2,
          THEN conjunct2, THEN conjunct1, rule_format, OF h5])
  have a6: "\<forall>c. fcb_body (?u[fcb_i (fcb_init 2) := c]) (fcb_init 2)
              = Next ((fcb_init 2)\<lparr>fcb_i := fcb_i (fcb_init 2) + 1\<rparr>)"
    by (intro allI, rule c6) (simp add: charAt_def fcb_init_def)
  then have "fcb_body (?u[fcb_i (fcb_init 2) := backtick]) (fcb_init 2)
              = Next ((fcb_init 2)\<lparr>fcb_i := fcb_i (fcb_init 2) + 1\<rparr>)"
    by (rule spec)
  then have 6: "fcb_body ?u (fcb_init 2) = Next (fcb_init 3)" by (simp add: fcb_init_def)
  have n: "fcb_init 2 \<in> set (fcb_states ?u (fcb_init 0))" by code_simp
  have h7: "fcb_init 2 \<in> set (fcb_states ?u (fcb_init 0)) \<and> fcb_i (fcb_init 2) < length ?u
            \<and> (\<forall>c. fcb_body (?u[fcb_i (fcb_init 2) := c]) (fcb_init 2)
                    = Next ((fcb_init 2)\<lparr>fcb_i := fcb_i (fcb_init 2) + 1\<rparr>))"
    using n a6 by (simp add: fcb_init_def)
  have 7: "0 < fcb_i (fcb_init 2) \<and> charAt ?u (fcb_i (fcb_init 2) - 1) = Some backslash"
    by (rule escape_rules_of_the_scanners[where t = ?u and p = 0 and f = "fcb_init 2",
          THEN conjunct2, THEN conjunct2, THEN conjunct2, THEN conjunct2, THEN conjunct1,
          rule_format, OF h7])
  from 1 3 4 5 6 7 show ?thesis
    by (simp add: fcb_init_def)
qed

subsection \<open>Fold ranges\<close>

text \<open>
  C9. A literal should get a fold range exactly when it spans at least three lines. The
  document below holds one literal on three lines: its leader and opening backtick are on
  line 0, and its closing backtick, where content extraction ends the literal, is at
  offset 17 on line 2. \<open>findClosingBacktick\<close>, started behind the opening backtick, stops
  at offset 13, the closing backtick of the nested literal \<open>html`x`\<close> on line 0 (the
  search that C1 is about). The end line is taken to be line 0, the nested literal lies on
  one line, and \<open>provideFoldingRanges\<close> returns no range at all for a literal of three
  lines. Without the nested literal, a literal on the same three lines gets the range
  from line 0 to line 2, and one on two lines gets none.
\<close>

theorem three_line_literal_without_fold_range:
  "extractTemplateContent (''html`${html`x`}'' @ [newline, newline] @ ''`'') 5
      = Some (''${html`x`}'' @ [newline, newline])
   \<and> charAt (''html`${html`x`}'' @ [newline, newline] @ ''`'') 17 = Some backtick
   \<and> lineAt (''html`${html`x`}'' @ [newline, newline] @ ''`'') 0 = 0
   \<and> lineAt (''html`${html`x`}'' @ [newline, newline] @ ''`'') 17 = 2
   \<and> leaderScan FoldLeader [''html'', ''dom''] (''html`${html`x`}'' @ [newline, newline] @ ''`'') 0
      = [(0, 5), (7, 5)]
   \<and> findClosingBacktick (''html`${html`x`}'' @ [newline, newline] @ ''`'') 5 = 13
   \<and> lineAt (''html`${html`x`}'' @ [newline, newline] @ ''`'') 13 = 0
   \<and> foldingCandidates [''html'', ''dom''] (''html`${html`x`}'' @ [newline, newline] @ ''`'') = []
   \<and> provideFoldingRanges [''html'', ''dom''] (''html`${html`x`}'' @ [newline, newline] @ ''`'')
      = []
   \<and> provideFoldingRanges [''html'', ''dom''] (''html`'' @ [newline, newline] @ ''`'') = [(0, 2)]
   \<and> provideFoldingRanges [''html'', ''dom''] (''html`'' @ [newline] @ ''`'') = []"
  by code_simp

subsection \<open>Balanced tags and well-formed HTML give no diagnostics\<close>












































subsection \<open>The outer structure of a nested literal\<close>

text \<open>
  C6. A leading interpolation that contains a leader and backtick literal should be
  recursed into, and that literal's outer structure be the result. In the content
  \<open>${/* html */`<li>x</li>`}\<close> the interpolation holds a literal opened by the bare
  annotation, which the leader pattern of the validator matches and which the README
  describes as working anywhere, including nested; its content \<open><li>x</li>\<close> has the
  outer structure \<open><li></li>\<close>. \<open>extractOuterTags\<close> searches the interpolation with a
  pattern of its own, with the fixed names \<open>html\<close> and \<open>dom\<close> and without the bare
  annotation; it finds no literal, steps over the interpolation and returns the
  placeholder \<open><span></span>\<close>. An empty nested literal is stepped over as well:
  \<open>${html``}<p></p>\<close> gives \<open><p></p>\<close>, not the structure of the empty literal.
\<close>

theorem outer_structure_skips_annotated_literal:
  "trim ''${/* html */`<li>x</li>`}'' = ''${/* html */`<li>x</li>`}''
   \<and> findMatchingBrace ''${/* html */`<li>x</li>`}'' 1 = 24
   \<and> substring ''${/* html */`<li>x</li>`}'' 2 24 = ''/* html */`<li>x</li>`''
   \<and> leaderScan DiagLeader [''html'', ''dom''] ''/* html */`<li>x</li>`'' 0 = [(0, 11)]
   \<and> extractTemplateContent ''/* html */`<li>x</li>`'' 11 = Some ''<li>x</li>''
   \<and> extractOuterTags ''<li>x</li>'' = ''<li></li>''
   \<and> extractOuterTags ''${/* html */`<li>x</li>`}'' = ''<span></span>''
   \<and> extractOuterTags ''${html``}<p></p>'' = ''<p></p>''
   \<and> extractOuterTags [] = ''<span></span>''"
  by code_simp

end
